theory Spec2Isabelle
  imports Main "HOL-Library.AList"
begin

section \<open>JSON documents and the JavaScript operations the source applies to them\<close>

text \<open>
  The HTTP helper is called with \<^verbatim>\<open>json: true\<close>, so every response is a parsed JSON document.
  An object is an association list in insertion order with distinct keys, as
  \<^verbatim>\<open>JSON.parse\<close> builds it. JSON numbers are modelled by their integer values.
  A JavaScript value that may be \<^verbatim>\<open>undefined\<close> is a \<open>jvalue option\<close>, with \<open>None\<close> for
  \<^verbatim>\<open>undefined\<close>.
\<close>

datatype jvalue =
    JNull
  | JBool bool
  | JNum int
  | JStr string
  | JArr "jvalue list"
  | JObj "(string \<times> jvalue) list"

datatype error =
    NodeOperationError string int
  | TransportError string
  | TypeError

text \<open>\<^verbatim>\<open>Boolean(v)\<close>, \<^verbatim>\<open>!v\<close> and \<^verbatim>\<open>v ? a : b\<close>: the falsy values are undefined, null, false, 0 and
  the empty string.\<close>

fun truthy :: "jvalue option \<Rightarrow> bool" where
  "truthy None = False"
| "truthy (Some JNull) = False"
| "truthy (Some (JBool b)) = b"
| "truthy (Some (JNum n)) = (n \<noteq> 0)"
| "truthy (Some (JStr s)) = (s \<noteq> [])"
| "truthy (Some (JArr xs)) = True"
| "truthy (Some (JObj fs)) = True"

text \<open>Truthiness of an optional string field (\<^verbatim>\<open>listOptions.after\<close>).\<close>

fun str_truthy :: "string option \<Rightarrow> bool" where
  "str_truthy None = False"
| "str_truthy (Some s) = (s \<noteq> [])"

text \<open>\<^verbatim>\<open>v?.k\<close>: undefined on undefined and null; on an object the field, if any; the
  properties the source reads (data, has_more, id, name) are undefined on every other value.\<close>

fun opt_prop :: "jvalue option \<Rightarrow> string \<Rightarrow> jvalue option" where
  "opt_prop (Some (JObj fs)) k = map_of fs k"
| "opt_prop v k = None"

text \<open>\<^verbatim>\<open>v.k\<close>: reading a property of null or undefined throws a TypeError.\<close>

fun get_prop :: "jvalue option \<Rightarrow> string \<Rightarrow> error + jvalue option" where
  "get_prop None k = Inl TypeError"
| "get_prop (Some JNull) k = Inl TypeError"
| "get_prop (Some v) k = Inr (opt_prop (Some v) k)"

text \<open>\<^verbatim>\<open>o.k = v\<close> on an object: an existing key keeps its place, a new key goes last. The source
  assigns only after \<^verbatim>\<open>Array.isArray(o.data)\<close> held, which only an object satisfies.\<close>

fun set_prop :: "jvalue \<Rightarrow> string \<Rightarrow> jvalue \<Rightarrow> jvalue" where
  "set_prop (JObj fs) k v = JObj (AList.update k v fs)"
| "set_prop x k v = x"

fun isArray :: "jvalue option \<Rightarrow> bool" where
  "isArray (Some (JArr xs)) = True"
| "isArray v = False"

text \<open>\<^verbatim>\<open>for (const item of v)\<close> and \<^verbatim>\<open>v.length\<close>, \<^verbatim>\<open>v[i]\<close>: an array gives its elements, a string
  its characters (each a one-character string); any other JSON value is not iterable.\<close>

fun iterate :: "jvalue \<Rightarrow> error + jvalue list" where
  "iterate (JArr xs) = Inr xs"
| "iterate (JStr s) = Inr (map (\<lambda>c. JStr [c]) s)"
| "iterate v = Inl TypeError"

text \<open>String conversion inside a template literal (line 116): a string is itself, an integer
  its decimal digits, an array its elements joined by commas with null as the empty string,
  an object \<^verbatim>\<open>[object Object]\<close>.\<close>

fun digits :: "nat \<Rightarrow> string" where
  "digits n =
     (if n < 10 then [char_of (48 + n)]
      else digits (n div 10) @ [char_of (48 + n mod 10)])"

fun join :: "string \<Rightarrow> string list \<Rightarrow> string" where
  "join sep [] = []"
| "join sep [s] = s"
| "join sep (s # t # ss) = s @ sep @ join sep (t # ss)"

fun js_toString :: "jvalue \<Rightarrow> string" where
  "js_toString JNull = ''null''"
| "js_toString (JBool b) = (if b then ''true'' else ''false'')"
| "js_toString (JNum n) = (if n < 0 then CHR ''-'' # digits (nat (- n)) else digits (nat n))"
| "js_toString (JStr s) = s"
| "js_toString (JArr xs) = join '','' (map (\<lambda>x. if x = JNull then [] else js_toString x) xs)"
| "js_toString (JObj fs) = ''[object Object]''"

text \<open>The data of a response as the loop reads it: the array, or the empty list when the
  field is not an array.\<close>

fun responseData_of :: "jvalue option \<Rightarrow> jvalue list" where
  "responseData_of (Some (JArr xs)) = xs"
| "responseData_of v = []"

section \<open>The HTTP transport\<close>

text \<open>
  \<^verbatim>\<open>helpers.httpRequest\<close> is the external collaborator: one network call on the state of the
  world \<open>'w\<close>, returning the parsed document or throwing. The source does not catch what it
  throws. A request is the options object the source passes (lines 101 to 109 and 235 to
  243); its field \<^verbatim>\<open>method\<close> is \<open>http_method\<close> here, the plain name being reserved.
\<close>

record request =
  url :: string
  http_method :: string
  headers :: "(string \<times> string) list"
  qs :: "(string \<times> jvalue) list"
  json :: bool

type_synonym 'w transport = "'w \<Rightarrow> request \<Rightarrow> (error + jvalue) \<times> 'w"

definition RESEND_API_BASE :: string where
  "RESEND_API_BASE = ''https://api.resend.com''"

definition get_request :: "string \<Rightarrow> string \<Rightarrow> (string \<times> jvalue) list \<Rightarrow> request" where
  "get_request u apiKey q =
     \<lparr>url = u, http_method = ''GET'', headers = [(''Authorization'', ''Bearer '' @ apiKey)],
      qs = q, json = True\<rparr>"

text \<open>A transport that also records every call it serves, in call order, as the request
  and what came back: the observer of "which calls were issued".\<close>

type_synonym call = "request \<times> (error + jvalue)"

definition logged :: "'w transport \<Rightarrow> ('w \<times> call list) transport" where
  "logged http = (\<lambda>(w, log) rq. case http w rq of (r, w') \<Rightarrow> (r, (w', log @ [(rq, r)])))"

text \<open>The items a served call contributed, as the loop of requestList reads them.\<close>

fun page_items :: "call \<Rightarrow> jvalue list" where
  "page_items (rq, Inr resp) = responseData_of (opt_prop (Some resp) ''data'')"
| "page_items (rq, Inl e) = []"

text \<open>A scripted upstream: the responses still to be served, one per call whatever the
  query; a call beyond the script is a transport failure.\<close>

fun scripted :: "jvalue list transport" where
  "scripted [] rq = (Inl (TransportError ''no response''), [])"
| "scripted (r # rs) rq = (Inr r, rs)"

section \<open>requestList\<close>

text \<open>
  The caller's list options (lines 12 to 15); a field that is not set is \<open>None\<close>, and the
  node's form hands an option left blank as the empty string. The parameter
  \<^verbatim>\<open>executeFunctions\<close> is the transport and the world it acts on, \<^verbatim>\<open>limit\<close> is an optional
  integer, and the node that \<^verbatim>\<open>NodeOperationError\<close> names is left out of the error value.
\<close>

record ListOptions =
  after :: "string option"
  before :: "string option"

datatype pagination_mode = ModeAfter | ModeBefore

text \<open>The variables of the full-aggregation walk (lines 221 and 260 to 265). The query object
  \<^verbatim>\<open>qs\<close> is among them: the closure \<^verbatim>\<open>requestPage\<close> reads it at every call and the loop
  assigns to it between calls.\<close>

record walk =
  w_qs :: "(string \<times> jvalue) list"
  allItems :: "jvalue list"
  lastResponse :: "jvalue option"
  hasMore :: bool
  pageCount :: nat
  paginationMode :: "pagination_mode option"

definition maxPages :: nat where
  "maxPages = 100"

text \<open>Lines 285 to 292: the cursor of the next request.\<close>

definition set_cursor :: "walk \<Rightarrow> jvalue \<Rightarrow> walk" where
  "set_cursor st i =
     (if paginationMode st = Some ModeBefore
      then st\<lparr>w_qs := AList.delete ''after'' (AList.update ''before'' i (w_qs st))\<rparr>
      else st\<lparr>w_qs := AList.delete ''before'' (AList.update ''after'' i (w_qs st)),
              paginationMode := Some ModeAfter\<rparr>)"

text \<open>Lines 267 to 293: the \<^verbatim>\<open>while (hasMore)\<close> loop, one iteration per unfolding.\<close>

function requestAllLoop ::
  "'w transport \<Rightarrow> string \<Rightarrow> string \<Rightarrow> walk \<Rightarrow> 'w \<Rightarrow> (error + walk) \<times> 'w" where
  "requestAllLoop http u apiKey st w =
     (if \<not> hasMore st then (Inr st, w)
      else
        (case http w (get_request u apiKey (w_qs st)) of
          (Inl e, w') \<Rightarrow> (Inl e, w')
        | (Inr resp, w') \<Rightarrow>
            (case get_prop (Some resp) ''data'' of
              Inl e \<Rightarrow> (Inl e, w')
            | Inr d \<Rightarrow>
                (let responseData = responseData_of d;
                     st1 = st\<lparr>allItems := allItems st @ responseData,
                              lastResponse := Some resp,
                              hasMore := truthy (opt_prop (Some resp) ''has_more''),
                              pageCount := pageCount st + 1\<rparr>
                 in if \<not> hasMore st1 \<or> responseData = [] \<or> pageCount st1 \<ge> maxPages
                    then (Inr st1, w')
                    else
                      (case opt_prop (Some (last responseData)) ''id'' of
                        None \<Rightarrow> (Inr st1, w')
                      | Some i \<Rightarrow>
                          if \<not> truthy (Some i) then (Inr st1, w')
                          else requestAllLoop http u apiKey (set_cursor st1 i) w')))))"
  by pat_completeness auto
termination
  by (relation "measure (\<lambda>(http, u, apiKey, st, w). maxPages - pageCount st)")
     (auto simp: set_cursor_def)

text \<open>Lines 295 to 301: the result of the walk.\<close>

definition finish :: "walk \<Rightarrow> jvalue" where
  "finish st =
     (if truthy (lastResponse st) \<and> isArray (opt_prop (lastResponse st) ''data'')
      then (case lastResponse st of
              Some r \<Rightarrow> set_prop (set_prop r ''data'' (JArr (allItems st))) ''has_more'' (JBool False)
            | None \<Rightarrow> JNull)
      else JObj [(''object'', JStr ''list''), (''data'', JArr (allItems st)),
                 (''has_more'', JBool False)])"

text \<open>Lines 220 to 232: the query of the first request.\<close>

definition initial_qs :: "ListOptions \<Rightarrow> bool \<Rightarrow> int option \<Rightarrow> (string \<times> jvalue) list" where
  "initial_qs listOptions returnAll limit =
     (let pageSize = (if returnAll then 100 else (case limit of None \<Rightarrow> 50 | Some l \<Rightarrow> l));
          q0 = [(''limit'', JNum pageSize)];
          q1 = (case after listOptions of
                  Some a \<Rightarrow> if a \<noteq> [] then AList.update ''after'' (JStr a) q0 else q0
                | None \<Rightarrow> q0)
      in (case before listOptions of
            Some b \<Rightarrow> if b \<noteq> [] then AList.update ''before'' (JStr b) q1 else q1
          | None \<Rightarrow> q1))"

definition initial_walk :: "ListOptions \<Rightarrow> (string \<times> jvalue) list \<Rightarrow> walk" where
  "initial_walk listOptions q =
     \<lparr>w_qs = q, allItems = [], lastResponse = None, hasMore = True, pageCount = 0,
      paginationMode = (if str_truthy (before listOptions) then Some ModeBefore else None)\<rparr>"

definition both_message :: string where
  \<open>both_message = ''You can only use either "After" or "Before", not both.''\<close>

text \<open>Lines 245 to 258: the single page, cut to \<open>limit\<close> items when the limit is a positive
  number and the page is longer.\<close>

definition single_page :: "jvalue \<Rightarrow> int option \<Rightarrow> error + jvalue" where
  "single_page singleResponse limit =
     (case limit of
        None \<Rightarrow> Inr singleResponse
      | Some l \<Rightarrow>
          if \<not> l > 0 then Inr singleResponse
          else
            (case get_prop (Some singleResponse) ''data'' of
              Inl e \<Rightarrow> Inl e
            | Inr d \<Rightarrow>
                if isArray d \<and> int (length (responseData_of d)) > l
                then Inr (set_prop singleResponse ''data'' (JArr (take (nat l) (responseData_of d))))
                else Inr singleResponse))"

text \<open>Lines 203 to 302.\<close>

definition requestList ::
  "'w transport \<Rightarrow> string \<Rightarrow> ListOptions \<Rightarrow> string \<Rightarrow> int \<Rightarrow> bool \<Rightarrow> int option \<Rightarrow> 'w
   \<Rightarrow> (error + jvalue) \<times> 'w" where
  "requestList http u listOptions apiKey itemIndex returnAll limit w =
     (if str_truthy (after listOptions) \<and> str_truthy (before listOptions)
      then (Inl (NodeOperationError both_message itemIndex), w)
      else
        (let q = initial_qs listOptions returnAll limit in
         if \<not> returnAll then
           (case http w (get_request u apiKey q) of
             (Inl e, w') \<Rightarrow> (Inl e, w')
           | (Inr singleResponse, w') \<Rightarrow> (single_page singleResponse limit, w'))
         else
           (case requestAllLoop http u apiKey (initial_walk listOptions q) w of
             (Inl e, w') \<Rightarrow> (Inl e, w')
           | (Inr st, w') \<Rightarrow> (Inr (finish st), w'))))"

section \<open>paginatedLoadOptions\<close>

text \<open>The pairs returned (name and value), and the variables of the loop (lines 88 to 93).
  The API key, which the source reads from the credentials, is a parameter.\<close>

record INodePropertyOptions =
  opt_name :: jvalue
  opt_value :: jvalue

record loader =
  returnData :: "INodePropertyOptions list"
  l_after :: "jvalue option"
  l_hasMore :: bool
  l_pageCount :: nat

definition loaderMaxPages :: nat where
  "loaderMaxPages = 10"

text \<open>Lines 112 to 121: the pairs one page contributes.\<close>

fun project :: "jvalue list \<Rightarrow> INodePropertyOptions list" where
  "project [] = []"
| "project (item # items) =
     (case opt_prop (Some item) ''id'' of
        None \<Rightarrow> project items
      | Some i \<Rightarrow>
          if \<not> truthy (Some i) then project items
          else
            (case opt_prop (Some item) ''name'' of
               None \<Rightarrow> \<lparr>opt_name = i, opt_value = i\<rparr>
             | Some n \<Rightarrow>
                 if truthy (Some n)
                 then \<lparr>opt_name = JStr (js_toString n @ '' ('' @ js_toString i @ '')''),
                       opt_value = i\<rparr>
                 else \<lparr>opt_name = i, opt_value = i\<rparr>)
            # project items)"

text \<open>\<^verbatim>\<open>response?.data ?? []\<close>.\<close>

fun items_of :: "jvalue \<Rightarrow> jvalue" where
  "items_of response =
     (case opt_prop (Some response) ''data'' of
        None \<Rightarrow> JArr []
      | Some JNull \<Rightarrow> JArr []
      | Some v \<Rightarrow> v)"

text \<open>Line 124: \<^verbatim>\<open>items.length ? items[items.length - 1].id : undefined\<close>.\<close>

definition next_after :: "jvalue list \<Rightarrow> error + jvalue option" where
  "next_after items = (if items = [] then Inr None else get_prop (Some (last items)) ''id'')"

text \<open>Lines 96 to 99: the query of one request of the loader.\<close>

definition loader_qs :: "jvalue option \<Rightarrow> (string \<times> jvalue) list" where
  "loader_qs a =
     (case a of
        Some v \<Rightarrow> if truthy a then AList.update ''after'' v [(''limit'', JNum 100)]
                  else [(''limit'', JNum 100)]
      | None \<Rightarrow> [(''limit'', JNum 100)])"

text \<open>Lines 95 to 129: the \<^verbatim>\<open>while (hasMore)\<close> loop of the loader.\<close>

function loadLoop ::
  "'w transport \<Rightarrow> string \<Rightarrow> string \<Rightarrow> loader \<Rightarrow> 'w \<Rightarrow> (error + loader) \<times> 'w" where
  "loadLoop http endpoint apiKey st w =
     (if \<not> l_hasMore st then (Inr st, w)
      else
        (case http w (get_request (RESEND_API_BASE @ endpoint) apiKey (loader_qs (l_after st))) of
          (Inl e, w') \<Rightarrow> (Inl e, w')
        | (Inr response, w') \<Rightarrow>
            (case iterate (items_of response) of
              Inl e \<Rightarrow> (Inl e, w')
            | Inr items \<Rightarrow>
                (case next_after items of
                  Inl e \<Rightarrow> (Inl e, w')
                | Inr a \<Rightarrow>
                    (let st1 = st\<lparr>returnData := returnData st @ project items,
                                  l_hasMore := truthy (opt_prop (Some response) ''has_more''),
                                  l_after := a,
                                  l_pageCount := l_pageCount st + 1\<rparr>
                     in if \<not> truthy a \<or> l_pageCount st1 \<ge> loaderMaxPages
                        then (Inr st1, w')
                        else loadLoop http endpoint apiKey st1 w')))))"
  by pat_completeness auto
termination
  by (relation "measure (\<lambda>(http, endpoint, apiKey, st, w). loaderMaxPages - l_pageCount st)")
     auto

text \<open>Lines 88 to 132.\<close>

definition initial_loader :: loader where
  "initial_loader = \<lparr>returnData = [], l_after = None, l_hasMore = True, l_pageCount = 0\<rparr>"

definition paginatedLoadOptions ::
  "'w transport \<Rightarrow> string \<Rightarrow> string \<Rightarrow> 'w \<Rightarrow> (error + INodePropertyOptions list) \<times> 'w" where
  "paginatedLoadOptions http endpoint apiKey w =
     (case loadLoop http endpoint apiKey initial_loader w of
        (Inl e, w') \<Rightarrow> (Inl e, w')
      | (Inr st, w') \<Rightarrow> (Inr (returnData st), w'))"

section \<open>Notions used to state the properties\<close>

text \<open>What one iteration of the loop of requestList does to its variables once a response
  has arrived (lines 269 to 275), the part of the continuation test that depends on the
  response alone (lines 276 to 283), and the cursor taken from it.\<close>

definition absorb :: "walk \<Rightarrow> jvalue \<Rightarrow> walk" where
  "absorb st resp =
     st\<lparr>allItems := allItems st @ responseData_of (opt_prop (Some resp) ''data''),
        lastResponse := Some resp,
        hasMore := truthy (opt_prop (Some resp) ''has_more''),
        pageCount := pageCount st + 1\<rparr>"

definition page_continues :: "jvalue \<Rightarrow> bool" where
  "page_continues resp \<longleftrightarrow>
     truthy (opt_prop (Some resp) ''has_more'') \<and>
     responseData_of (opt_prop (Some resp) ''data'') \<noteq> [] \<and>
     truthy (opt_prop (Some (last (responseData_of (opt_prop (Some resp) ''data'')))) ''id'')"

definition cursor_of :: "jvalue \<Rightarrow> jvalue" where
  "cursor_of resp =
     (case opt_prop (Some (last (responseData_of (opt_prop (Some resp) ''data'')))) ''id'' of
        Some i \<Rightarrow> i | None \<Rightarrow> JNull)"

text \<open>The invariant of the walk over the record of calls, and what holds of the record when
  the walk has ended.\<close>

fun call_continues :: "call \<Rightarrow> bool" where
  "call_continues (rq, Inr resp) = page_continues resp"
| "call_continues (rq, Inl e) = False"

definition walk_inv :: "walk \<Rightarrow> call list \<Rightarrow> bool" where
  "walk_inv st log \<longleftrightarrow>
     hasMore st \<and> pageCount st = length log \<and> length log < maxPages \<and>
     list_all call_continues log \<and> allItems st = concat (map page_items log)"

definition walk_post :: "error + walk \<Rightarrow> call list \<Rightarrow> bool" where
  "walk_post r log \<longleftrightarrow>
     log \<noteq> [] \<and> length log \<le> maxPages \<and> list_all call_continues (butlast log) \<and>
     (\<not> call_continues (last log) \<or> length log = maxPages) \<and>
     (case r of
        Inr st' \<Rightarrow>
          allItems st' = concat (map page_items log) \<and>
          (\<exists>rq resp. last log = (rq, Inr resp) \<and> resp \<noteq> JNull \<and> lastResponse st' = Some resp)
      | Inl e \<Rightarrow>
          (\<exists>rq. last log = (rq, Inl e)) \<or> (e = TypeError \<and> (\<exists>rq. last log = (rq, Inr JNull))))"

text \<open>Documents of the shape the upstream API sends: an item that carries an id, and a
  list page.\<close>

definition item_with_id :: "string \<Rightarrow> jvalue" where
  "item_with_id i = JObj [(''id'', JStr i)]"

definition list_page :: "jvalue list \<Rightarrow> bool \<Rightarrow> jvalue" where
  "list_page items hm = JObj [(''object'', JStr ''list''), (''data'', JArr items), (''has_more'', JBool hm)]"

text \<open>What one iteration of the loop of paginatedLoadOptions does to its variables once a
  response has arrived (lines 111 to 125), and the items a served call contributed as that
  loop reads them.\<close>

definition load_page :: "loader \<Rightarrow> jvalue \<Rightarrow> error + loader" where
  "load_page st response =
     (case iterate (items_of response) of
        Inl e \<Rightarrow> Inl e
      | Inr items \<Rightarrow>
          (case next_after items of
             Inl e \<Rightarrow> Inl e
           | Inr a \<Rightarrow>
               Inr (st\<lparr>returnData := returnData st @ project items,
                       l_hasMore := truthy (opt_prop (Some response) ''has_more''),
                       l_after := a,
                       l_pageCount := l_pageCount st + 1\<rparr>)))"

fun loader_items :: "call \<Rightarrow> jvalue list" where
  "loader_items (rq, Inr response) =
     (case iterate (items_of response) of Inr items \<Rightarrow> items | Inl e \<Rightarrow> [])"
| "loader_items (rq, Inl e) = []"

text \<open>The projection of the Dropdown Loader as the specification words it: an item has an
  id when its id is truthy (present and non-empty); its pair is named "name (id)" when it
  has a name and by the id otherwise, and valued by the id.\<close>

definition spec_has_id :: "jvalue \<Rightarrow> bool" where
  "spec_has_id item \<longleftrightarrow> truthy (opt_prop (Some item) ''id'')"

definition spec_pair :: "jvalue \<Rightarrow> INodePropertyOptions" where
  "spec_pair item =
     (case opt_prop (Some item) ''id'' of
        None \<Rightarrow> \<lparr>opt_name = JNull, opt_value = JNull\<rparr>
      | Some i \<Rightarrow>
          (case opt_prop (Some item) ''name'' of
             None \<Rightarrow> \<lparr>opt_name = i, opt_value = i\<rparr>
           | Some n \<Rightarrow>
               \<lparr>opt_name = (if truthy (Some n)
                             then JStr (js_toString n @ '' ('' @ js_toString i @ '')'') else i),
                opt_value = i\<rparr>))"

section \<open>The loop of requestList\<close>

declare requestAllLoop.simps [simp del]
declare loadLoop.simps [simp del]

lemma get_prop_Some: "get_prop (Some v) k = (if v = JNull then Inl TypeError else Inr (opt_prop (Some v) k))"
  by (cases v) simp_all

lemma qs_get_request [simp]: "qs (get_request u k q) = q"
  by (simp add: get_request_def)

lemma requestAllLoop_unfold:
  "requestAllLoop http u k st w =
     (if \<not> hasMore st then (Inr st, w)
      else
        (case http w (get_request u k (w_qs st)) of
          (Inl e, w') \<Rightarrow> (Inl e, w')
        | (Inr resp, w') \<Rightarrow>
            if resp = JNull then (Inl TypeError, w')
            else if page_continues resp \<and> pageCount st + 1 < maxPages
            then requestAllLoop http u k (set_cursor (absorb st resp) (cursor_of resp)) w'
            else (Inr (absorb st resp), w')))"
  apply (subst requestAllLoop.simps)
  apply (auto simp: get_prop_Some absorb_def page_continues_def cursor_of_def Let_def
      split: prod.splits sum.splits option.splits)
  done

lemma logged_apply:
  "logged http (w, log) rq = (fst (http w rq), (snd (http w rq), log @ [(rq, fst (http w rq))]))"
  by (simp add: logged_def split: prod.splits)

lemma pageCount_set_cursor [simp]: "pageCount (set_cursor st i) = pageCount st"
  by (simp add: set_cursor_def)

lemma pageCount_absorb [simp]: "pageCount (absorb st resp) = pageCount st + 1"
  by (simp add: absorb_def)

lemma hasMore_set_cursor [simp]: "hasMore (set_cursor st i) = hasMore st"
  by (simp add: set_cursor_def)

lemma allItems_set_cursor [simp]: "allItems (set_cursor st i) = allItems st"
  by (simp add: set_cursor_def)

lemma lastResponse_set_cursor [simp]: "lastResponse (set_cursor st i) = lastResponse st"
  by (simp add: set_cursor_def)

lemma absorb_simps [simp]:
  "hasMore (absorb st resp) = truthy (opt_prop (Some resp) ''has_more'')"
  "allItems (absorb st resp) = allItems st @ responseData_of (opt_prop (Some resp) ''data'')"
  "lastResponse (absorb st resp) = Some resp"
  "w_qs (absorb st resp) = w_qs st"
  "paginationMode (absorb st resp) = paginationMode st"
  by (simp_all add: absorb_def)

lemma page_continues_has_more: "page_continues resp \<Longrightarrow> truthy (opt_prop (Some resp) ''has_more'')"
  by (simp add: page_continues_def)

lemma page_continues_JNull [simp]: "\<not> page_continues JNull"
  by (simp add: page_continues_def)

lemma page_continuesI:
  assumes "opt_prop (Some r1) ''data'' = Some (JArr p)" and "p \<noteq> []"
    and "truthy (opt_prop (Some r1) ''has_more'')"
    and "truthy (opt_prop (Some (last p)) ''id'')"
  shows "page_continues r1"
  using assms by (simp add: page_continues_def)

lemma loop_rule:
  assumes run: "requestAllLoop (logged http) u k st (w, log) = (r, (w', log'))"
    and inv: "I st w log"
    and nomore: "\<And>st w log. I st w log \<Longrightarrow> \<not> hasMore st \<Longrightarrow> Q (Inr st) w log"
    and fail: "\<And>st w log e w'. I st w log \<Longrightarrow> hasMore st \<Longrightarrow>
                 http w (get_request u k (w_qs st)) = (Inl e, w') \<Longrightarrow>
                 Q (Inl e) w' (log @ [(get_request u k (w_qs st), Inl e)])"
    and null: "\<And>st w log w'. I st w log \<Longrightarrow> hasMore st \<Longrightarrow>
                 http w (get_request u k (w_qs st)) = (Inr JNull, w') \<Longrightarrow>
                 Q (Inl TypeError) w' (log @ [(get_request u k (w_qs st), Inr JNull)])"
    and stop: "\<And>st w log resp w'. I st w log \<Longrightarrow> hasMore st \<Longrightarrow>
                 http w (get_request u k (w_qs st)) = (Inr resp, w') \<Longrightarrow> resp \<noteq> JNull \<Longrightarrow>
                 \<not> (page_continues resp \<and> pageCount st + 1 < maxPages) \<Longrightarrow>
                 Q (Inr (absorb st resp)) w' (log @ [(get_request u k (w_qs st), Inr resp)])"
    and step: "\<And>st w log resp w'. I st w log \<Longrightarrow> hasMore st \<Longrightarrow>
                 http w (get_request u k (w_qs st)) = (Inr resp, w') \<Longrightarrow> resp \<noteq> JNull \<Longrightarrow>
                 page_continues resp \<Longrightarrow> pageCount st + 1 < maxPages \<Longrightarrow>
                 I (set_cursor (absorb st resp) (cursor_of resp)) w'
                   (log @ [(get_request u k (w_qs st), Inr resp)])"
  shows "Q r w' log'"
  using run inv
proof (induction "maxPages - pageCount st" arbitrary: st w log rule: less_induct)
  case less
  show ?case
  proof (cases "hasMore st")
    case False
    with less.prems show ?thesis
      by (subst (asm) requestAllLoop_unfold) (auto intro: nomore)
  next
    case True
    obtain x w1 where h: "http w (get_request u k (w_qs st)) = (x, w1)"
      by (cases "http w (get_request u k (w_qs st))")
    show ?thesis
    proof (cases x)
      case (Inl e)
      with less.prems True h fail [OF less.prems(2) True, of e w1] show ?thesis
        by (subst (asm) requestAllLoop_unfold) (auto simp: logged_apply)
    next
      case (Inr resp)
      show ?thesis
      proof (cases "resp = JNull")
        case True
        with less.prems \<open>hasMore st\<close> h Inr null [OF less.prems(2) \<open>hasMore st\<close>, of w1]
        show ?thesis
          by (subst (asm) requestAllLoop_unfold) (auto simp: logged_apply)
      next
        case nn: False
        show ?thesis
        proof (cases "page_continues resp \<and> pageCount st + 1 < maxPages")
          case False
          with less.prems \<open>hasMore st\<close> h Inr nn
            stop [OF less.prems(2) \<open>hasMore st\<close>, of resp w1]
          show ?thesis
            by (subst (asm) requestAllLoop_unfold) (auto simp: logged_apply)
        next
          case True
          let ?st = "set_cursor (absorb st resp) (cursor_of resp)"
          let ?log = "log @ [(get_request u k (w_qs st), Inr resp)]"
          have rec: "requestAllLoop (logged http) u k ?st (w1, ?log) = (r, (w', log'))"
            using less.prems(1) \<open>hasMore st\<close> h Inr nn True
            by (subst (asm) requestAllLoop_unfold) (auto simp: logged_apply)
          have i: "I ?st w1 ?log"
            using step [OF less.prems(2) \<open>hasMore st\<close>, of resp w1] h Inr nn True by simp
          have m: "maxPages - pageCount ?st < maxPages - pageCount st"
            using True by auto
          from less.hyps [OF m rec i] show ?thesis .
        qed
      qed
    qed
  qed
qed

lemma walk_log:
  assumes "requestAllLoop (logged http) u k st (w, []) = (r, (w', log))"
    and "hasMore st" and "pageCount st = 0" and "allItems st = []"
  shows "walk_post r log"
proof (rule loop_rule [where I = "\<lambda>st w log. walk_inv st log" and Q = "\<lambda>r w log. walk_post r log",
      OF assms(1)])
  show "walk_inv st []"
    using assms(2-4) by (simp add: walk_inv_def maxPages_def)
next
  fix st w log assume "walk_inv st log" "\<not> hasMore st"
  then show "walk_post (Inr st) log" by (simp add: walk_inv_def)
next
  fix st w log e w'
  assume "walk_inv st log"
  then show "walk_post (Inl e) (log @ [(get_request u k (w_qs st), Inl e)])"
    by (simp add: walk_inv_def walk_post_def)
next
  fix st w log w'
  assume "walk_inv st log"
  then show "walk_post (Inl TypeError) (log @ [(get_request u k (w_qs st), Inr JNull)])"
    by (simp add: walk_inv_def walk_post_def)
next
  fix st w log resp w'
  assume "walk_inv st log" "resp \<noteq> JNull"
    "\<not> (page_continues resp \<and> pageCount st + 1 < maxPages)"
  then show "walk_post (Inr (absorb st resp)) (log @ [(get_request u k (w_qs st), Inr resp)])"
    by (auto simp: walk_inv_def walk_post_def)
next
  fix st w log resp w'
  assume "walk_inv st log" "page_continues resp" "pageCount st + 1 < maxPages"
  then show "walk_inv (set_cursor (absorb st resp) (cursor_of resp))
               (log @ [(get_request u k (w_qs st), Inr resp)])"
    by (auto simp: walk_inv_def page_continues_has_more)
qed

lemma walk_result:
  assumes "walk_post r0 log" and "snd (last log) = Inr resp" and "resp \<noteq> JNull"
  shows "\<exists>st'. r0 = Inr st' \<and> allItems st' = concat (map page_items log) \<and>
               lastResponse st' = Some resp"
  using assms by (cases r0) (auto simp: walk_post_def)

lemma walk_post_Inr:
  assumes "walk_post (Inr st') log"
  shows "\<exists>rq resp. last log = (rq, Inr resp) \<and> resp \<noteq> JNull \<and> lastResponse st' = Some resp \<and>
           allItems st' = concat (map page_items log)"
  using assms by (auto simp: walk_post_def)

lemma walk_post_continuing:
  assumes "walk_post r0 log" and "Suc j < length log"
  shows "\<exists>rq resp. log ! j = (rq, Inr resp) \<and> page_continues resp \<and> Suc j < maxPages"
proof -
  from assms have j: "j < length (butlast log)" by simp
  from assms(1) have "list_all call_continues (butlast log)" and le: "length log \<le> maxPages"
    by (simp_all add: walk_post_def)
  with j have "call_continues (butlast log ! j)" by (simp add: list_all_length)
  with j have c: "call_continues (log ! j)" by (simp add: nth_butlast)
  obtain rq x where x: "log ! j = (rq, x)" by (cases "log ! j")
  with c obtain resp where "x = Inr resp" "page_continues resp"
    by (cases x) simp_all
  with x assms(2) le show ?thesis by simp
qed

lemma walk_exact:
  assumes "requestAllLoop (logged http) u k st (w, []) = (r, (w', log))"
    and "pageCount st = 0" and "hasMore st"
    and good: "\<And>w rq. \<exists>resp. fst (http w rq) = Inr resp \<and> page_continues resp"
  shows "length log = maxPages"
proof (rule loop_rule [where
      I = "\<lambda>st w log. hasMore st \<and> pageCount st = length log \<and> length log < maxPages"
      and Q = "\<lambda>r w log. length log = maxPages", OF assms(1)])
  show "hasMore st \<and> pageCount st = length [] \<and> length [] < maxPages"
    using assms(2,3) by (simp add: maxPages_def)
next
  fix st :: walk and w and log :: "call list"
  assume "hasMore st \<and> pageCount st = length log \<and> length log < maxPages"
    "\<not> hasMore st"
  then show "length log = maxPages" by simp
next
  fix st :: walk and w and log :: "call list" and e w'
  assume "http w (get_request u k (w_qs st)) = (Inl e, w')"
  with good [of w "get_request u k (w_qs st)"]
  show "length (log @ [(get_request u k (w_qs st), Inl e)]) = maxPages" by simp
next
  fix st :: walk and w and log :: "call list" and w'
  assume "http w (get_request u k (w_qs st)) = (Inr JNull, w')"
  with good [of w "get_request u k (w_qs st)"]
  show "length (log @ [(get_request u k (w_qs st), Inr JNull)]) = maxPages" by simp
next
  fix st :: walk and w and log :: "call list" and resp w'
  assume i: "hasMore st \<and> pageCount st = length log \<and> length log < maxPages"
    and h: "http w (get_request u k (w_qs st)) = (Inr resp, w')"
    and stop: "\<not> (page_continues resp \<and> pageCount st + 1 < maxPages)"
  from h good [of w "get_request u k (w_qs st)"] have "page_continues resp" by simp
  with stop i show "length (log @ [(get_request u k (w_qs st), Inr resp)]) = maxPages" by auto
next
  fix st :: walk and w and log :: "call list" and resp w'
  assume i: "hasMore st \<and> pageCount st = length log \<and> length log < maxPages"
    and c: "page_continues resp" and lt: "pageCount st + 1 < maxPages"
  then show "hasMore (set_cursor (absorb st resp) (cursor_of resp)) \<and>
        pageCount (set_cursor (absorb st resp) (cursor_of resp)) =
          length (log @ [(get_request u k (w_qs st), Inr resp)]) \<and>
        length (log @ [(get_request u k (w_qs st), Inr resp)]) < maxPages"
    by (simp add: page_continues_has_more)
qed

lemma walk_first:
  assumes "requestAllLoop (logged http) u k st (w, []) = (r, (w', log))" and "hasMore st"
  shows "log \<noteq> [] \<and> qs (fst (hd log)) = w_qs st"
proof (rule loop_rule [where
      I = "\<lambda>s w log. (log = [] \<longrightarrow> s = st) \<and> (log \<noteq> [] \<longrightarrow> qs (fst (hd log)) = w_qs st)"
      and Q = "\<lambda>r w log. log \<noteq> [] \<and> qs (fst (hd log)) = w_qs st",
      OF assms(1)])
qed (use assms(2) in \<open>auto simp: hd_append\<close>)

subsection \<open>The queries of a walk\<close>

lemma w_qs_set_cursor:
  "w_qs (set_cursor st i) =
     (if paginationMode st = Some ModeBefore
      then AList.delete ''after'' (AList.update ''before'' i (w_qs st))
      else AList.delete ''before'' (AList.update ''after'' i (w_qs st)))"
  by (simp add: set_cursor_def)

lemma paginationMode_set_cursor:
  "paginationMode (set_cursor st i) =
     (if paginationMode st = Some ModeBefore then Some ModeBefore else Some ModeAfter)"
  by (simp add: set_cursor_def)

lemma walk_limit:
  assumes "requestAllLoop (logged http) u k st (w, []) = (r, (w', log))"
    and "map_of (w_qs st) ''limit'' = Some v"
  shows "\<forall>c\<in>set log. map_of (qs (fst c)) ''limit'' = Some v"
proof (rule loop_rule [where
      I = "\<lambda>st w log. map_of (w_qs st) ''limit'' = Some v \<and>
                     (\<forall>c\<in>set log. map_of (qs (fst c)) ''limit'' = Some v)"
      and Q = "\<lambda>r w log. \<forall>c\<in>set log. map_of (qs (fst c)) ''limit'' = Some v",
      OF assms(1)])
qed (use assms(2) in \<open>auto simp: w_qs_set_cursor update_conv' delete_conv'\<close>)

lemma walk_backward:
  assumes "requestAllLoop (logged http) u k st (w, []) = (r, (w', log))"
    and "paginationMode st = Some ModeBefore"
    and "map_of (w_qs st) ''before'' \<noteq> None" and "map_of (w_qs st) ''after'' = None"
  shows "\<forall>c\<in>set log. map_of (qs (fst c)) ''before'' \<noteq> None \<and> map_of (qs (fst c)) ''after'' = None"
proof (rule loop_rule [where
      I = "\<lambda>st w log. paginationMode st = Some ModeBefore \<and>
                     map_of (w_qs st) ''before'' \<noteq> None \<and> map_of (w_qs st) ''after'' = None \<and>
                     (\<forall>c\<in>set log. map_of (qs (fst c)) ''before'' \<noteq> None \<and>
                                   map_of (qs (fst c)) ''after'' = None)"
      and Q = "\<lambda>r w log. \<forall>c\<in>set log. map_of (qs (fst c)) ''before'' \<noteq> None \<and>
                                       map_of (qs (fst c)) ''after'' = None",
      OF assms(1)])
qed (use assms(2-4) in \<open>auto simp: w_qs_set_cursor paginationMode_set_cursor update_conv' delete_conv'\<close>)

lemma walk_forward:
  assumes "requestAllLoop (logged http) u k st (w, []) = (r, (w', log))"
    and "paginationMode st \<noteq> Some ModeBefore"
    and "map_of (w_qs st) ''before'' = None"
  shows "(\<forall>c\<in>set log. map_of (qs (fst c)) ''before'' = None) \<and>
         (\<forall>c\<in>set (tl log). map_of (qs (fst c)) ''after'' \<noteq> None) \<and>
         (map_of (w_qs st) ''after'' \<noteq> None \<longrightarrow> (\<forall>c\<in>set log. map_of (qs (fst c)) ''after'' \<noteq> None))"
proof (rule loop_rule [where
      I = "\<lambda>s w log. paginationMode s \<noteq> Some ModeBefore \<and>
                     map_of (w_qs s) ''before'' = None \<and>
                     (log \<noteq> [] \<longrightarrow> map_of (w_qs s) ''after'' \<noteq> None) \<and>
                     (map_of (w_qs st) ''after'' \<noteq> None \<longrightarrow> map_of (w_qs s) ''after'' \<noteq> None) \<and>
                     (\<forall>c\<in>set log. map_of (qs (fst c)) ''before'' = None) \<and>
                     (\<forall>c\<in>set (tl log). map_of (qs (fst c)) ''after'' \<noteq> None) \<and>
                     (map_of (w_qs st) ''after'' \<noteq> None \<longrightarrow>
                        (\<forall>c\<in>set log. map_of (qs (fst c)) ''after'' \<noteq> None))"
      and Q = "\<lambda>r w log. (\<forall>c\<in>set log. map_of (qs (fst c)) ''before'' = None) \<and>
         (\<forall>c\<in>set (tl log). map_of (qs (fst c)) ''after'' \<noteq> None) \<and>
         (map_of (w_qs st) ''after'' \<noteq> None \<longrightarrow> (\<forall>c\<in>set log. map_of (qs (fst c)) ''after'' \<noteq> None))",
      OF assms(1)])
qed (use assms(2-3) in \<open>auto simp: w_qs_set_cursor paginationMode_set_cursor update_conv' delete_conv'
       tl_append split: if_splits list.splits\<close>)

subsection \<open>Against a scripted upstream\<close>

lemma logged_scripted_Cons:
  "logged scripted (r1 # rs, log) rq = (Inr r1, (rs, log @ [(rq, Inr r1)]))"
  by (simp add: logged_def)

lemma scripted_continue:
  assumes "hasMore st" and "page_continues r1" and "pageCount st + 1 < maxPages"
  shows "requestAllLoop (logged scripted) u k st (r1 # rs, log) =
           requestAllLoop (logged scripted) u k (set_cursor (absorb st r1) (cursor_of r1))
             (rs, log @ [(get_request u k (w_qs st), Inr r1)])"
proof -
  from assms(2) have "r1 \<noteq> JNull" by auto
  with assms show ?thesis
    by (subst requestAllLoop_unfold) (simp add: logged_scripted_Cons)
qed

lemma scripted_stop:
  assumes "hasMore st" and "r1 \<noteq> JNull" and "\<not> page_continues r1"
  shows "requestAllLoop (logged scripted) u k st (r1 # rs, log) =
           (Inr (absorb st r1), (rs, log @ [(get_request u k (w_qs st), Inr r1)]))"
  using assms by (subst requestAllLoop_unfold) (simp add: logged_scripted_Cons)

section \<open>requestList as a whole\<close>

lemma str_truthy_Some: "str_truthy x \<Longrightarrow> \<exists>y. x = Some y"
  by (cases x) simp_all

lemma initial_qs_limit:
  "map_of (initial_qs lo returnAll limit) ''limit'' =
     Some (JNum (if returnAll then 100 else (case limit of None \<Rightarrow> 50 | Some l \<Rightarrow> l)))"
  by (simp add: initial_qs_def Let_def update_conv' split: option.splits)

lemma initial_qs_before:
  "map_of (initial_qs lo returnAll limit) ''before'' =
     (if str_truthy (before lo) then map_option JStr (before lo) else None)"
  by (cases "before lo"; cases "after lo") (simp_all add: initial_qs_def Let_def update_conv')

lemma initial_qs_after:
  "map_of (initial_qs lo returnAll limit) ''after'' =
     (if str_truthy (after lo) then map_option JStr (after lo) else None)"
  by (cases "before lo"; cases "after lo") (simp_all add: initial_qs_def Let_def update_conv')

lemma initial_walk_simps [simp]:
  "w_qs (initial_walk lo q) = q"
  "allItems (initial_walk lo q) = []"
  "lastResponse (initial_walk lo q) = None"
  "hasMore (initial_walk lo q)"
  "pageCount (initial_walk lo q) = 0"
  "paginationMode (initial_walk lo q) = (if str_truthy (before lo) then Some ModeBefore else None)"
  by (simp_all add: initial_walk_def)

lemma opt_prop_set_prop:
  "opt_prop (Some (set_prop resp k v)) k' =
     (if k' = k \<and> (\<exists>fs. resp = JObj fs) then Some v else opt_prop (Some resp) k')"
  by (cases resp) (simp_all add: update_conv')

lemma opt_prop_Some_obj: "opt_prop (Some resp) k = Some v \<Longrightarrow> \<exists>fs. resp = JObj fs"
  by (cases resp) simp_all

lemma isArray_obj: "isArray (opt_prop (Some resp) k) \<Longrightarrow> \<exists>fs. resp = JObj fs"
  by (cases resp) simp_all

lemma not_isArray_responseData: "\<not> isArray v \<Longrightarrow> responseData_of v = []"
  by (cases v rule: isArray.cases) simp_all

lemma finish_array:
  assumes "lastResponse st = Some resp" and "isArray (opt_prop (Some resp) ''data'')"
  shows "finish st = set_prop (set_prop resp ''data'' (JArr (allItems st))) ''has_more'' (JBool False)"
proof -
  from assms(2) obtain fs where "resp = JObj fs" by (blast dest: isArray_obj)
  with assms show ?thesis by (simp add: finish_def)
qed

lemma finish_fallback:
  assumes "lastResponse st = Some resp" and "\<not> isArray (opt_prop (Some resp) ''data'')"
  shows "finish st = JObj [(''object'', JStr ''list''), (''data'', JArr (allItems st)),
                           (''has_more'', JBool False)]"
  using assms by (simp add: finish_def)

lemma finish_reads:
  assumes "lastResponse st = Some resp"
  shows "opt_prop (Some (finish st)) ''data'' = Some (JArr (allItems st)) \<and>
         opt_prop (Some (finish st)) ''has_more'' = Some (JBool False)"
proof (cases "isArray (opt_prop (Some resp) ''data'')")
  case True
  then obtain fs where "resp = JObj fs" by (blast dest: isArray_obj)
  with finish_array [OF assms True] show ?thesis by (simp add: update_conv')
next
  case False
  from finish_fallback [OF assms False] show ?thesis by simp
qed

lemma concat_page_items_butlast:
  assumes "log \<noteq> []" and "page_items (last log) = []"
  shows "concat (map page_items log) = concat (map page_items (butlast log))"
proof -
  from assms(1) have e: "butlast log @ [last log] = log"
    by simp
  have "concat (map page_items (butlast log @ [last log])) =
          concat (map page_items (butlast log)) @ page_items (last log)"
    by simp
  then show ?thesis
    unfolding e using assms(2) by simp
qed

lemma requestList_full:
  assumes "\<not> (str_truthy (after lo) \<and> str_truthy (before lo))"
    and "requestList (logged http) u lo k idx True limit (w, []) = (r, (w', log))"
  shows "\<exists>r0. requestAllLoop (logged http) u k (initial_walk lo (initial_qs lo True limit)) (w, [])
                = (r0, (w', log)) \<and>
              r = (case r0 of Inl e \<Rightarrow> Inl e | Inr st \<Rightarrow> Inr (finish st))"
  using assms
  by (cases "requestAllLoop (logged http) u k (initial_walk lo (initial_qs lo True limit)) (w, [])")
     (auto simp: requestList_def Let_def split: sum.splits)

lemma requestList_single:
  assumes "\<not> (str_truthy (after lo) \<and> str_truthy (before lo))"
  shows "requestList (logged http) u lo k idx False limit (w, []) =
           (case http w (get_request u k (initial_qs lo False limit)) of
              (Inl e, w') \<Rightarrow> (Inl e, (w', [(get_request u k (initial_qs lo False limit), Inl e)]))
            | (Inr resp, w') \<Rightarrow>
                (single_page resp limit, (w', [(get_request u k (initial_qs lo False limit), Inr resp)])))"
  using assms
  by (auto simp: requestList_def Let_def logged_apply split: sum.splits prod.splits)

lemma requestList_walk:
  assumes "\<not> (str_truthy (after lo) \<and> str_truthy (before lo))"
    and "requestList (logged http) u lo k idx True limit (w, []) = (r, (w', log))"
  shows "\<exists>r0. walk_post r0 log \<and> r = (case r0 of Inl e \<Rightarrow> Inl e | Inr st \<Rightarrow> Inr (finish st))"
proof -
  from requestList_full [OF assms] obtain r0 where
    run: "requestAllLoop (logged http) u k (initial_walk lo (initial_qs lo True limit)) (w, [])
            = (r0, (w', log))"
    and r: "r = (case r0 of Inl e \<Rightarrow> Inl e | Inr st \<Rightarrow> Inr (finish st))"
    by blast
  have "walk_post r0 log" by (rule walk_log [OF run]) simp_all
  with r show ?thesis by blast
qed

lemma requestList_refused:
  assumes "str_truthy (after lo) \<and> str_truthy (before lo)"
    and "requestList (logged http) u lo k idx returnAll limit (w, log0) = (r, (w', log))"
  shows "log = log0 \<and> r = Inl (NodeOperationError both_message idx)"
  using assms by (auto simp: requestList_def)

lemma requestList_fetched:
  assumes "requestList (logged http) u lo k idx True limit (w, []) = (r, (w', log))"
    and "log \<noteq> []"
  shows "\<exists>r0. walk_post r0 log \<and> r = (case r0 of Inl e \<Rightarrow> Inl e | Inr st \<Rightarrow> Inr (finish st))"
proof (cases "str_truthy (after lo) \<and> str_truthy (before lo)")
  case True
  from requestList_refused [OF True assms(1)] assms(2) show ?thesis by simp
next
  case False
  from requestList_walk [OF False assms(1)] show ?thesis .
qed

section \<open>The loop of paginatedLoadOptions\<close>

lemma loadLoop_unfold:
  "loadLoop http endpoint k st w =
     (if \<not> l_hasMore st then (Inr st, w)
      else
        (case http w (get_request (RESEND_API_BASE @ endpoint) k (loader_qs (l_after st))) of
          (Inl e, w') \<Rightarrow> (Inl e, w')
        | (Inr response, w') \<Rightarrow>
            (case load_page st response of
              Inl e \<Rightarrow> (Inl e, w')
            | Inr st1 \<Rightarrow>
                if \<not> truthy (l_after st1) \<or> l_pageCount st1 \<ge> loaderMaxPages
                then (Inr st1, w')
                else loadLoop http endpoint k st1 w')))"
  apply (subst loadLoop.simps)
  apply (auto simp: load_page_def Let_def split: prod.splits sum.splits)
  done

lemma load_page_pageCount: "load_page st response = Inr st1 \<Longrightarrow> l_pageCount st1 = l_pageCount st + 1"
  by (auto simp: load_page_def split: sum.splits)

lemma load_page_returnData:
  "load_page st response = Inr st1 \<Longrightarrow>
     returnData st1 = returnData st @ project (loader_items (rq, Inr response))"
  by (auto simp: load_page_def split: sum.splits)

lemma load_page_continues:
  assumes "page_continues response"
  shows "\<exists>st1. load_page st response = Inr st1 \<and> truthy (l_after st1) \<and> l_hasMore st1 \<and>
               l_pageCount st1 = l_pageCount st + 1"
proof -
  from assms obtain xs where d: "opt_prop (Some response) ''data'' = Some (JArr xs)" and ne: "xs \<noteq> []"
    by (cases "opt_prop (Some response) ''data''" rule: responseData_of.cases)
       (auto simp: page_continues_def)
  from assms d have i: "truthy (opt_prop (Some (last xs)) ''id'')"
    and m: "truthy (opt_prop (Some response) ''has_more'')"
    by (simp_all add: page_continues_def)
  from i have "last xs \<noteq> JNull" by auto
  with d ne i m show ?thesis
    by (simp add: load_page_def next_after_def get_prop_Some)
qed

lemma load_rule:
  assumes run: "loadLoop (logged http) endpoint k st (w, log) = (r, (w', log'))"
    and inv: "I st log"
    and nomore: "\<And>st log. I st log \<Longrightarrow> \<not> l_hasMore st \<Longrightarrow> Q (Inr st) log"
    and fail: "\<And>st log e rq. I st log \<Longrightarrow> l_hasMore st \<Longrightarrow>
                 (\<exists>w. fst (http w rq) = Inl e) \<Longrightarrow> Q (Inl e) (log @ [(rq, Inl e)])"
    and throw: "\<And>st log response e rq. I st log \<Longrightarrow> l_hasMore st \<Longrightarrow>
                 (\<exists>w. fst (http w rq) = Inr response) \<Longrightarrow>
                 load_page st response = Inl e \<Longrightarrow> Q (Inl e) (log @ [(rq, Inr response)])"
    and stop: "\<And>st log response st1 rq. I st log \<Longrightarrow> l_hasMore st \<Longrightarrow>
                 (\<exists>w. fst (http w rq) = Inr response) \<Longrightarrow>
                 load_page st response = Inr st1 \<Longrightarrow>
                 \<not> truthy (l_after st1) \<or> l_pageCount st1 \<ge> loaderMaxPages \<Longrightarrow>
                 Q (Inr st1) (log @ [(rq, Inr response)])"
    and step: "\<And>st log response st1 rq. I st log \<Longrightarrow> l_hasMore st \<Longrightarrow>
                 (\<exists>w. fst (http w rq) = Inr response) \<Longrightarrow>
                 load_page st response = Inr st1 \<Longrightarrow>
                 truthy (l_after st1) \<Longrightarrow> l_pageCount st1 < loaderMaxPages \<Longrightarrow>
                 I st1 (log @ [(rq, Inr response)])"
  shows "Q r log'"
  using run inv
proof (induction "loaderMaxPages - l_pageCount st" arbitrary: st w log rule: less_induct)
  case less
  let ?rq = "get_request (RESEND_API_BASE @ endpoint) k (loader_qs (l_after st))"
  show ?case
  proof (cases "l_hasMore st")
    case False
    with less.prems show ?thesis
      by (subst (asm) loadLoop_unfold) (auto intro: nomore)
  next
    case True
    obtain x w1 where h: "http w ?rq = (x, w1)"
      by (cases "http w ?rq")
    show ?thesis
    proof (cases x)
      case (Inl e)
      from h Inl have "\<exists>w. fst (http w ?rq) = Inl e" by (intro exI [of _ w]) simp
      from fail [OF less.prems(2) True this] less.prems(1) True h Inl show ?thesis
        by (subst (asm) loadLoop_unfold) (auto simp: logged_apply)
    next
      case (Inr response)
      from h Inr have ex: "\<exists>w. fst (http w ?rq) = Inr response" by (intro exI [of _ w]) simp
      show ?thesis
      proof (cases "load_page st response")
        case e: (Inl e)
        from throw [OF less.prems(2) True ex e] less.prems(1) True h Inr e show ?thesis
          by (subst (asm) loadLoop_unfold) (auto simp: logged_apply)
      next
        case st1: (Inr st1)
        show ?thesis
        proof (cases "\<not> truthy (l_after st1) \<or> l_pageCount st1 \<ge> loaderMaxPages")
          case True
          from stop [OF less.prems(2) \<open>l_hasMore st\<close> ex st1 True]
            less.prems(1) \<open>l_hasMore st\<close> h Inr st1 True
          show ?thesis
            by (subst (asm) loadLoop_unfold) (auto simp: logged_apply)
        next
          case False
          have rec: "loadLoop (logged http) endpoint k st1 (w1, log @ [(?rq, Inr response)]) =
                       (r, (w', log'))"
            using less.prems(1) \<open>l_hasMore st\<close> h Inr st1 False
            by (subst (asm) loadLoop_unfold) (auto simp: logged_apply)
          have i: "I st1 (log @ [(?rq, Inr response)])"
            using step [OF less.prems(2) \<open>l_hasMore st\<close> ex st1] False by simp
          have m: "loaderMaxPages - l_pageCount st1 < loaderMaxPages - l_pageCount st"
            using False load_page_pageCount [OF st1] by auto
          from less.hyps [OF m rec i] show ?thesis .
        qed
      qed
    qed
  qed
qed

lemma initial_loader_simps [simp]:
  "returnData initial_loader = []" "l_after initial_loader = None"
  "l_hasMore initial_loader" "l_pageCount initial_loader = 0"
  by (simp_all add: initial_loader_def)

lemma paginatedLoadOptions_run:
  assumes "paginatedLoadOptions (logged http) endpoint k (w, []) = (r, (w', log))"
  shows "\<exists>r0. loadLoop (logged http) endpoint k initial_loader (w, []) = (r0, (w', log)) \<and>
              r = (case r0 of Inl e \<Rightarrow> Inl e | Inr st \<Rightarrow> Inr (returnData st))"
  using assms
  by (cases "loadLoop (logged http) endpoint k initial_loader (w, [])")
     (auto simp: paginatedLoadOptions_def split: sum.splits)

lemma load_bound:
  assumes "loadLoop (logged http) endpoint k st (w, []) = (r, (w', log))"
    and "l_pageCount st = 0"
  shows "length log \<le> loaderMaxPages"
proof (rule load_rule [where
      I = "\<lambda>st log. l_pageCount st = length log \<and> length log < loaderMaxPages"
      and Q = "\<lambda>r log. length log \<le> loaderMaxPages", OF assms(1)])
qed (use assms(2) in \<open>auto simp: loaderMaxPages_def dest: load_page_pageCount\<close>)

lemma load_exact:
  assumes "loadLoop (logged http) endpoint k st (w, []) = (r, (w', log))"
    and "l_pageCount st = 0" and "l_hasMore st"
    and good: "\<And>w rq. \<exists>resp. fst (http w rq) = Inr resp \<and> page_continues resp"
  shows "length log = loaderMaxPages"
proof (rule load_rule [where
      I = "\<lambda>st log. l_hasMore st \<and> l_pageCount st = length log \<and> length log < loaderMaxPages"
      and Q = "\<lambda>r log. length log = loaderMaxPages", OF assms(1)])
  show "l_hasMore st \<and> l_pageCount st = length [] \<and> length [] < loaderMaxPages"
    using assms(2,3) by (simp add: loaderMaxPages_def)
next
  fix st :: loader and log :: "call list"
  assume "l_hasMore st \<and> l_pageCount st = length log \<and> length log < loaderMaxPages"
    "\<not> l_hasMore st"
  then show "length log = loaderMaxPages" by simp
next
  fix st :: loader and log :: "call list" and e rq
  assume "\<exists>w. fst (http w rq) = Inl e"
  with good show "length (log @ [(rq, Inl e)]) = loaderMaxPages"
    by (metis sum.distinct(1))
next
  fix st :: loader and log :: "call list" and response e rq
  assume "\<exists>w. fst (http w rq) = Inr response" "load_page st response = Inl e"
  moreover from this(1) good have "page_continues response"
    by (metis sum.inject(2))
  ultimately show "length (log @ [(rq, Inr response)]) = loaderMaxPages"
    using load_page_continues [of response st] by auto
next
  fix st :: loader and log :: "call list" and response st1 rq
  assume i: "l_hasMore st \<and> l_pageCount st = length log \<and> length log < loaderMaxPages"
    and ex: "\<exists>w. fst (http w rq) = Inr response" and st1: "load_page st response = Inr st1"
    and stop: "\<not> truthy (l_after st1) \<or> loaderMaxPages \<le> l_pageCount st1"
  from ex good have "page_continues response"
    by (metis sum.inject(2))
  with load_page_continues [of response st] st1 stop i
  show "length (log @ [(rq, Inr response)]) = loaderMaxPages" by auto
next
  fix st :: loader and log :: "call list" and response st1 rq
  assume i: "l_hasMore st \<and> l_pageCount st = length log \<and> length log < loaderMaxPages"
    and ex: "\<exists>w. fst (http w rq) = Inr response" and st1: "load_page st response = Inr st1"
    and lt: "l_pageCount st1 < loaderMaxPages"
  from ex good have "page_continues response"
    by (metis sum.inject(2))
  with load_page_continues [of response st] st1 lt i
  show "l_hasMore st1 \<and> l_pageCount st1 = length (log @ [(rq, Inr response)]) \<and>
        length (log @ [(rq, Inr response)]) < loaderMaxPages" by auto
qed

lemma load_returnData:
  assumes "loadLoop (logged http) endpoint k st (w, []) = (r, (w', log))"
    and "returnData st = []"
  shows "\<forall>s. r = Inr s \<longrightarrow> returnData s = concat (map (\<lambda>c. project (loader_items c)) log)"
proof (rule load_rule [where
      I = "\<lambda>s log. returnData s = concat (map (\<lambda>c. project (loader_items c)) log)"
      and Q = "\<lambda>r log. \<forall>s. r = Inr s \<longrightarrow>
                 returnData s = concat (map (\<lambda>c. project (loader_items c)) log)",
      OF assms(1)])
qed (use assms(2) in \<open>auto dest: load_page_returnData\<close>)

lemma project_spec: "project items = map spec_pair (filter spec_has_id items)"
  by (induction items) (auto simp: spec_has_id_def spec_pair_def split: option.splits)

lemma concat_project:
  "concat (map (\<lambda>c. project (loader_items c)) log) =
     map spec_pair (filter spec_has_id (concat (map loader_items log)))"
  by (induction log) (simp_all add: project_spec)

section \<open>Properties of requestList and paginatedLoadOptions\<close>

text \<open>
  The properties are stated with the transport wrapped by \<open>logged\<close> and started on the empty
  record, so that the record returned beside the result lists the calls issued, in call
  order, each with the response it got. A call of requestList with both cursors set issues
  none (C3): a statement that counts calls, or needs one to have been issued, is made for
  a call with at most one cursor set or for a non-empty record.
\<close>

text \<open>
  C1 (as amended): in full-aggregation mode the data of the result is the concatenation, in
  call order, of the item sequences of the pages fetched, nothing re-sorted or removed, and
  its has_more is false. In particular, when at most one cursor is set, for three
  consecutive upstream pages of 100, 100 and 37 items, the first two reporting has_more
  true and each ending with an item that carries a truthy (non-empty) id, and the third
  reporting has_more false, requestList issues exactly three calls and returns the 237
  items in call order with has_more false. Without an id on the last item of a page the
  walk stops at that page (lines 280 to 283).
\<close>

theorem full_aggregation_appends_pages:
  shows "(\<forall>http w res w' log.
            requestList (logged http) u lo k idx True limit (w, []) = (Inr res, (w', log)) \<longrightarrow>
            opt_prop (Some res) ''data'' = Some (JArr (concat (map page_items log))) \<and>
            opt_prop (Some res) ''has_more'' = Some (JBool False)) \<and>
         (\<not> (str_truthy (after lo) \<and> str_truthy (before lo)) \<longrightarrow>
          (\<forall>r1 r2 r3 p1 p2 p3 rest.
            opt_prop (Some r1) ''data'' = Some (JArr p1) \<and> length p1 = 100 \<and>
            opt_prop (Some r1) ''has_more'' = Some (JBool True) \<and>
            truthy (opt_prop (Some (last p1)) ''id'') \<and>
            opt_prop (Some r2) ''data'' = Some (JArr p2) \<and> length p2 = 100 \<and>
            opt_prop (Some r2) ''has_more'' = Some (JBool True) \<and>
            truthy (opt_prop (Some (last p2)) ''id'') \<and>
            opt_prop (Some r3) ''data'' = Some (JArr p3) \<and> length p3 = 37 \<and>
            opt_prop (Some r3) ''has_more'' = Some (JBool False) \<longrightarrow>
            (\<exists>res q1 q2 q3.
               requestList (logged scripted) u lo k idx True limit (r1 # r2 # r3 # rest, []) =
                 (Inr res, (rest, [(q1, Inr r1), (q2, Inr r2), (q3, Inr r3)])) \<and>
               opt_prop (Some res) ''data'' = Some (JArr (p1 @ p2 @ p3)) \<and>
               length (p1 @ p2 @ p3) = 237 \<and>
               opt_prop (Some res) ''has_more'' = Some (JBool False))))"
proof -
  have general: "opt_prop (Some res) ''data'' = Some (JArr (concat (map page_items log))) \<and>
            opt_prop (Some res) ''has_more'' = Some (JBool False)"
    if run: "requestList (logged http) u lo k idx True limit (w, []) = (Inr res, (w', log))"
    for http :: "'a transport" and w res w' log
  proof -
    have one: "\<not> (str_truthy (after lo) \<and> str_truthy (before lo))"
    proof
      assume "str_truthy (after lo) \<and> str_truthy (before lo)"
      from requestList_refused [OF this run] show False by simp
    qed
    from requestList_walk [OF one run] obtain r0 where
      post: "walk_post r0 log"
      and r: "Inr res = (case r0 of Inl e \<Rightarrow> Inl e | Inr st \<Rightarrow> Inr (finish st))"
      by blast
    from r obtain st' where st': "r0 = Inr st'" "res = finish st'"
      by (cases r0) simp_all
    from walk_post_Inr [OF post [unfolded st'(1)]] obtain resp where
      "lastResponse st' = Some resp" "allItems st' = concat (map page_items log)"
      by blast
    with finish_reads [of st' resp] st'(2) show ?thesis by simp
  qed
  have three: "\<exists>res q1 q2 q3.
               requestList (logged scripted) u lo k idx True limit (r1 # r2 # r3 # rest, []) =
                 (Inr res, (rest, [(q1, Inr r1), (q2, Inr r2), (q3, Inr r3)])) \<and>
               opt_prop (Some res) ''data'' = Some (JArr (p1 @ p2 @ p3)) \<and>
               length (p1 @ p2 @ p3) = 237 \<and>
               opt_prop (Some res) ''has_more'' = Some (JBool False)"
    if one: "\<not> (str_truthy (after lo) \<and> str_truthy (before lo))"
      and d1: "opt_prop (Some r1) ''data'' = Some (JArr p1)" and l1: "length p1 = 100"
      and m1: "opt_prop (Some r1) ''has_more'' = Some (JBool True)"
      and i1: "truthy (opt_prop (Some (last p1)) ''id'')"
      and d2: "opt_prop (Some r2) ''data'' = Some (JArr p2)" and l2: "length p2 = 100"
      and m2: "opt_prop (Some r2) ''has_more'' = Some (JBool True)"
      and i2: "truthy (opt_prop (Some (last p2)) ''id'')"
      and d3: "opt_prop (Some r3) ''data'' = Some (JArr p3)" and l3: "length p3 = 37"
      and m3: "opt_prop (Some r3) ''has_more'' = Some (JBool False)"
    for r1 r2 r3 p1 p2 p3 rest
  proof -
    let ?st0 = "initial_walk lo (initial_qs lo True limit)"
    let ?st1 = "set_cursor (absorb ?st0 r1) (cursor_of r1)"
    let ?st2 = "set_cursor (absorb ?st1 r2) (cursor_of r2)"
    let ?q1 = "get_request u k (w_qs ?st0)"
    let ?q2 = "get_request u k (w_qs ?st1)"
    let ?q3 = "get_request u k (w_qs ?st2)"
    from l1 l2 have ne: "p1 \<noteq> []" "p2 \<noteq> []" by auto
    have c1: "page_continues r1"
      using d1 ne(1) i1 m1 by (intro page_continuesI [of r1 p1]) simp_all
    have c2: "page_continues r2"
      using d2 ne(2) i2 m2 by (intro page_continuesI [of r2 p2]) simp_all
    have c3: "\<not> page_continues r3" "r3 \<noteq> JNull"
      using m3 d3 by (auto simp: page_continues_def)
    have s1: "requestAllLoop (logged scripted) u k ?st0 (r1 # r2 # r3 # rest, []) =
                requestAllLoop (logged scripted) u k ?st1 (r2 # r3 # rest, [(?q1, Inr r1)])"
      using scripted_continue [of ?st0 r1 u k "r2 # r3 # rest" "[]"] c1
      by (simp add: maxPages_def)
    have s2: "requestAllLoop (logged scripted) u k ?st1 (r2 # r3 # rest, [(?q1, Inr r1)]) =
                requestAllLoop (logged scripted) u k ?st2 (r3 # rest, [(?q1, Inr r1), (?q2, Inr r2)])"
      using scripted_continue [of ?st1 r2 u k "r3 # rest" "[(?q1, Inr r1)]"] c1 c2
      by (simp add: maxPages_def page_continues_has_more)
    have s3: "requestAllLoop (logged scripted) u k ?st2 (r3 # rest, [(?q1, Inr r1), (?q2, Inr r2)]) =
                (Inr (absorb ?st2 r3), (rest, [(?q1, Inr r1), (?q2, Inr r2), (?q3, Inr r3)]))"
      using scripted_stop [of ?st2 r3 u k rest "[(?q1, Inr r1), (?q2, Inr r2)]"] c2 c3
      by (simp add: page_continues_has_more)
    have run: "requestList (logged scripted) u lo k idx True limit (r1 # r2 # r3 # rest, []) =
                 (Inr (finish (absorb ?st2 r3)),
                  (rest, [(?q1, Inr r1), (?q2, Inr r2), (?q3, Inr r3)]))"
      using one s1 s2 s3 by (simp add: requestList_def Let_def)
    have items: "allItems (absorb ?st2 r3) = p1 @ p2 @ p3"
      using d1 d2 d3 by simp
    have "opt_prop (Some (finish (absorb ?st2 r3))) ''data'' = Some (JArr (p1 @ p2 @ p3)) \<and>
          opt_prop (Some (finish (absorb ?st2 r3))) ''has_more'' = Some (JBool False)"
      using finish_reads [of "absorb ?st2 r3" r3] items by simp
    moreover have "length (p1 @ p2 @ p3) = 237"
      using l1 l2 l3 by simp
    ultimately show ?thesis using run by blast
  qed
  from general three show ?thesis by blast
qed

theorem full_aggregation_appends_pages_witness:
  "\<not> (str_truthy (after \<lparr>after = None, before = None\<rparr>) \<and>
      str_truthy (before \<lparr>after = None, before = None\<rparr>)) \<and>
   (opt_prop (Some (list_page (replicate 100 (item_with_id ''e1'')) True)) ''data'' =
      Some (JArr (replicate 100 (item_with_id ''e1''))) \<and>
    length (replicate 100 (item_with_id ''e1'')) = 100 \<and>
    opt_prop (Some (list_page (replicate 100 (item_with_id ''e1'')) True)) ''has_more'' =
      Some (JBool True) \<and>
    truthy (opt_prop (Some (last (replicate 100 (item_with_id ''e1'')))) ''id'') \<and>
    opt_prop (Some (list_page (replicate 100 (item_with_id ''e2'')) True)) ''data'' =
      Some (JArr (replicate 100 (item_with_id ''e2''))) \<and>
    length (replicate 100 (item_with_id ''e2'')) = 100 \<and>
    opt_prop (Some (list_page (replicate 100 (item_with_id ''e2'')) True)) ''has_more'' =
      Some (JBool True) \<and>
    truthy (opt_prop (Some (last (replicate 100 (item_with_id ''e2'')))) ''id'') \<and>
    opt_prop (Some (list_page (replicate 37 (item_with_id ''e3'')) False)) ''data'' =
      Some (JArr (replicate 37 (item_with_id ''e3''))) \<and>
    length (replicate 37 (item_with_id ''e3'')) = 37 \<and>
    opt_prop (Some (list_page (replicate 37 (item_with_id ''e3'')) False)) ''has_more'' =
      Some (JBool False)) \<and>
   (\<exists>res q1 q2 q3.
      requestList (logged scripted) ''/emails'' \<lparr>after = None, before = None\<rparr> ''key'' 0 True None
        ([list_page (replicate 100 (item_with_id ''e1'')) True,
          list_page (replicate 100 (item_with_id ''e2'')) True,
          list_page (replicate 37 (item_with_id ''e3'')) False], []) =
        (Inr res,
         ([], [(q1, Inr (list_page (replicate 100 (item_with_id ''e1'')) True)),
               (q2, Inr (list_page (replicate 100 (item_with_id ''e2'')) True)),
               (q3, Inr (list_page (replicate 37 (item_with_id ''e3'')) False))])) \<and>
      opt_prop (Some res) ''data'' =
        Some (JArr (replicate 100 (item_with_id ''e1'') @ replicate 100 (item_with_id ''e2'') @
                    replicate 37 (item_with_id ''e3''))) \<and>
      length (replicate 100 (item_with_id ''e1'') @ replicate 100 (item_with_id ''e2'') @
              replicate 37 (item_with_id ''e3'')) = 237 \<and>
      opt_prop (Some res) ''has_more'' = Some (JBool False))"
proof -
  let ?lo = "\<lparr>after = None, before = None\<rparr>"
  let ?p1 = "replicate 100 (item_with_id ''e1'')"
  let ?p2 = "replicate 100 (item_with_id ''e2'')"
  let ?p3 = "replicate 37 (item_with_id ''e3'')"
  have h1: "\<not> (str_truthy (after ?lo) \<and> str_truthy (before ?lo))"
    by simp
  have h2: "opt_prop (Some (list_page ?p1 True)) ''data'' = Some (JArr ?p1) \<and>
    length ?p1 = 100 \<and>
    opt_prop (Some (list_page ?p1 True)) ''has_more'' = Some (JBool True) \<and>
    truthy (opt_prop (Some (last ?p1)) ''id'') \<and>
    opt_prop (Some (list_page ?p2 True)) ''data'' = Some (JArr ?p2) \<and>
    length ?p2 = 100 \<and>
    opt_prop (Some (list_page ?p2 True)) ''has_more'' = Some (JBool True) \<and>
    truthy (opt_prop (Some (last ?p2)) ''id'') \<and>
    opt_prop (Some (list_page ?p3 False)) ''data'' = Some (JArr ?p3) \<and>
    length ?p3 = 37 \<and>
    opt_prop (Some (list_page ?p3 False)) ''has_more'' = Some (JBool False)"
    by (simp add: list_page_def item_with_id_def)
  note h3 = full_aggregation_appends_pages
    [where lo = ?lo and u = "''/emails''" and k = "''key''" and idx = 0 and limit = None,
      THEN conjunct2, rule_format, OF h1 h2, of "[]"]
  from h1 h2 h3 show ?thesis by blast
qed

theorem full_aggregation_items_without_id_counterexample:
  "requestList (logged scripted) ''/emails'' \<lparr>after = None, before = None\<rparr> ''key'' 0 True None
     ([list_page (replicate 100 (JObj [(''to'', JStr ''a@b.c'')])) True,
       list_page (replicate 100 (JObj [(''to'', JStr ''a@b.c'')])) True,
       list_page (replicate 37 (JObj [(''to'', JStr ''a@b.c'')])) False], []) =
     (Inr (list_page (replicate 100 (JObj [(''to'', JStr ''a@b.c'')])) False),
      [list_page (replicate 100 (JObj [(''to'', JStr ''a@b.c'')])) True,
       list_page (replicate 37 (JObj [(''to'', JStr ''a@b.c'')])) False],
      [(get_request ''/emails'' ''key'' [(''limit'', JNum 100)],
        Inr (list_page (replicate 100 (JObj [(''to'', JStr ''a@b.c'')])) True))]) \<and>
   length (replicate 100 (JObj [(''to'', JStr ''a@b.c'')])) = 100 \<and>
   length (replicate 37 (JObj [(''to'', JStr ''a@b.c'')])) = 37"
  by code_simp

text \<open>
  C2: in full-aggregation mode a fetched page whose data is the empty array is the last call
  of the walk, whatever its has_more says, and requestList then returns the items accumulated
  from the calls before it, with has_more false. More generally, a call is followed by
  another one only if its response reported a truthy has_more, held a non-empty item
  sequence whose last item has a truthy (non-empty) id, and fewer than 100 calls had been
  made.
\<close>

theorem empty_page_stops_walk:
  assumes "requestList (logged http) u lo k idx True limit (w, []) = (r, (w', log))"
  shows "(\<forall>i resp. i < length log \<and> snd (log ! i) = Inr resp \<and>
                   opt_prop (Some resp) ''data'' = Some (JArr []) \<longrightarrow>
            Suc i = length log \<and>
            (\<exists>res. r = Inr res \<and>
               opt_prop (Some res) ''data'' = Some (JArr (concat (map page_items (take i log)))) \<and>
               opt_prop (Some res) ''has_more'' = Some (JBool False))) \<and>
         (\<forall>j. Suc j < length log \<longrightarrow>
            (\<exists>rq resp. log ! j = (rq, Inr resp) \<and>
               truthy (opt_prop (Some resp) ''has_more'') \<and>
               responseData_of (opt_prop (Some resp) ''data'') \<noteq> [] \<and>
               Suc j < 100 \<and>
               truthy (opt_prop (Some (last (responseData_of (opt_prop (Some resp) ''data'')))) ''id'')))"
proof (cases "log = []")
  case True
  then show ?thesis by simp
next
  case False
  from requestList_fetched [OF assms False] obtain r0 where
    post: "walk_post r0 log" and r: "r = (case r0 of Inl e \<Rightarrow> Inl e | Inr st \<Rightarrow> Inr (finish st))"
    by blast
  have cont: "\<exists>rq resp. log ! j = (rq, Inr resp) \<and>
               truthy (opt_prop (Some resp) ''has_more'') \<and>
               responseData_of (opt_prop (Some resp) ''data'') \<noteq> [] \<and>
               Suc j < 100 \<and>
               truthy (opt_prop (Some (last (responseData_of (opt_prop (Some resp) ''data'')))) ''id'')"
    if "Suc j < length log" for j
    using walk_post_continuing [OF post that] by (auto simp: page_continues_def maxPages_def)
  have stop: "Suc i = length log \<and>
            (\<exists>res. r = Inr res \<and>
               opt_prop (Some res) ''data'' = Some (JArr (concat (map page_items (take i log)))) \<and>
               opt_prop (Some res) ''has_more'' = Some (JBool False))"
    if i: "i < length log" and resp: "snd (log ! i) = Inr resp"
      and empty: "opt_prop (Some resp) ''data'' = Some (JArr [])" for i resp
  proof -
    have last_call: "Suc i = length log"
    proof (rule ccontr)
      assume "Suc i \<noteq> length log"
      with i have "Suc i < length log" by simp
      from cont [OF this] resp empty show False by auto
    qed
    from i have ne: "log \<noteq> []" by auto
    from last_call have i': "i = length log - 1" by simp
    have l: "last log = log ! i"
      unfolding i' using ne by (rule last_conv_nth)
    have t: "take i log = butlast log"
      unfolding i' by (simp add: butlast_conv_take)
    from empty have nn: "resp \<noteq> JNull" by auto
    from l resp have "snd (last log) = Inr resp" by simp
    from walk_result [OF post this nn] obtain st' where
      st': "r0 = Inr st'" "allItems st' = concat (map page_items log)" "lastResponse st' = Some resp"
      by blast
    have "page_items (last log) = []"
      using l resp empty by (cases "log ! i") simp
    from concat_page_items_butlast [OF ne this] st' t
    have "allItems st' = concat (map page_items (take i log))" by simp
    with finish_reads [OF st'(3)] r st'(1) last_call show ?thesis by simp
  qed
  from cont stop show ?thesis by blast
qed

theorem empty_page_stops_walk_witness:
  "requestList (logged scripted) ''/emails'' \<lparr>after = None, before = None\<rparr> ''key'' 0 True None
       ([list_page [item_with_id ''x1'', item_with_id ''x2''] True, list_page [] True,
         list_page [item_with_id ''x3''] False], []) =
     (Inr (list_page [item_with_id ''x1'', item_with_id ''x2''] False),
      [list_page [item_with_id ''x3''] False],
      [(get_request ''/emails'' ''key'' [(''limit'', JNum 100)],
        Inr (list_page [item_with_id ''x1'', item_with_id ''x2''] True)),
       (get_request ''/emails'' ''key'' [(''limit'', JNum 100), (''after'', JStr ''x2'')],
        Inr (list_page [] True))]) \<and>
   opt_prop (Some (list_page [] True)) ''data'' = Some (JArr []) \<and>
   Suc 1 = length
      [(get_request ''/emails'' ''key'' [(''limit'', JNum 100)],
        Inr (list_page [item_with_id ''x1'', item_with_id ''x2''] True)),
       (get_request ''/emails'' ''key'' [(''limit'', JNum 100), (''after'', JStr ''x2'')],
        Inr (list_page [] True))] \<and>
   opt_prop (Some (list_page [item_with_id ''x1'', item_with_id ''x2''] False)) ''data'' =
     Some (JArr (concat (map page_items (take 1
      [(get_request ''/emails'' ''key'' [(''limit'', JNum 100)],
        Inr (list_page [item_with_id ''x1'', item_with_id ''x2''] True)),
       (get_request ''/emails'' ''key'' [(''limit'', JNum 100), (''after'', JStr ''x2'')],
        Inr (list_page [] True))]))))"
proof -
  let ?lo = "\<lparr>after = None, before = None\<rparr>"
  let ?log = "[(get_request ''/emails'' ''key'' [(''limit'', JNum 100)],
        Inr (list_page [item_with_id ''x1'', item_with_id ''x2''] True)),
       (get_request ''/emails'' ''key'' [(''limit'', JNum 100), (''after'', JStr ''x2'')],
        Inr (list_page [] True))]"
  have h2: "requestList (logged scripted) ''/emails'' ?lo ''key'' 0 True None
       ([list_page [item_with_id ''x1'', item_with_id ''x2''] True, list_page [] True,
         list_page [item_with_id ''x3''] False], []) =
     (Inr (list_page [item_with_id ''x1'', item_with_id ''x2''] False),
      [list_page [item_with_id ''x3''] False], ?log)"
    by code_simp
  have h3: "opt_prop (Some (list_page [] True)) ''data'' = Some (JArr [])"
    by (simp add: list_page_def)
  have h4: "1 < length ?log \<and> snd (?log ! 1) = Inr (list_page [] True) \<and>
            opt_prop (Some (list_page [] True)) ''data'' = Some (JArr [])"
    using h3 by simp
  from empty_page_stops_walk [OF h2, THEN conjunct1, rule_format, OF h4]
  have h5: "Suc 1 = length ?log \<and>
     opt_prop (Some (list_page [item_with_id ''x1'', item_with_id ''x2''] False)) ''data'' =
       Some (JArr (concat (map page_items (take 1 ?log))))"
    by simp
  from h2 h3 h5 show ?thesis by blast
qed

text \<open>
  C3: whenever both the after cursor and the before cursor are set (defined and non-empty),
  requestList fails with the NodeOperationError that carries the item index, and it does so
  before any network call: the world and the record of calls are returned as they were,
  whatever returnAll and limit are.
\<close>

theorem requestList_rejects_both_cursors:
  assumes "str_truthy (after listOptions)" and "str_truthy (before listOptions)"
  shows "requestList (logged http) u listOptions apiKey itemIndex returnAll limit (w, log) =
           (Inl (NodeOperationError both_message itemIndex), (w, log))"
  using assms by (simp add: requestList_def)

theorem requestList_rejects_both_cursors_witness:
  "str_truthy (after \<lparr>after = Some ''a1'', before = Some ''b1''\<rparr>) \<and>
   str_truthy (before \<lparr>after = Some ''a1'', before = Some ''b1''\<rparr>) \<and>
   requestList (logged scripted) ''https://api.resend.com/emails''
       \<lparr>after = Some ''a1'', before = Some ''b1''\<rparr> ''key'' 3 True None ([JObj []], []) =
     (Inl (NodeOperationError both_message 3), ([JObj []], []))"
  using requestList_rejects_both_cursors
    [of "\<lparr>after = Some ''a1'', before = Some ''b1''\<rparr>" scripted
      "''https://api.resend.com/emails''" "''key''" 3 True None "[JObj []]" "[]"]
  by simp

text \<open>
  C4: in full-aggregation mode the direction is fixed for the whole walk. When the caller
  supplied before, every request of the walk carries before and never after. Otherwise no
  request carries before, every request from the second on carries after, and so does the
  first when the caller supplied after. In both cases no request carries both cursors.
\<close>

theorem walk_direction_fixed:
  assumes "requestList (logged http) u lo k idx True limit (w, []) = (r, (w', log))"
  shows "(if str_truthy (before lo)
          then list_all (\<lambda>c. map_of (qs (fst c)) ''before'' \<noteq> None \<and>
                              map_of (qs (fst c)) ''after'' = None) log
          else list_all (\<lambda>c. map_of (qs (fst c)) ''before'' = None) log \<and>
               list_all (\<lambda>c. map_of (qs (fst c)) ''after'' \<noteq> None) (tl log) \<and>
               (if str_truthy (after lo)
                then list_all (\<lambda>c. map_of (qs (fst c)) ''after'' \<noteq> None) log
                else map_of (qs (fst (hd log))) ''after'' = None)) \<and>
         list_all (\<lambda>c. map_of (qs (fst c)) ''before'' = None \<or>
                        map_of (qs (fst c)) ''after'' = None) log"
proof (cases "str_truthy (after lo) \<and> str_truthy (before lo)")
  case True
  from requestList_refused [OF True assms] have "log = []" by simp
  with True show ?thesis by simp
next
  case one: False
  let ?st = "initial_walk lo (initial_qs lo True limit)"
  from requestList_full [OF one assms] obtain r0 where
    run: "requestAllLoop (logged http) u k ?st (w, []) = (r0, (w', log))"
    by blast
  show ?thesis
  proof (cases "str_truthy (before lo)")
    case True
    with one have na: "\<not> str_truthy (after lo)" by simp
    have "\<forall>c\<in>set log. map_of (qs (fst c)) ''before'' \<noteq> None \<and> map_of (qs (fst c)) ''after'' = None"
      using True na
      by (intro walk_backward [OF run])
         (auto simp: initial_qs_before initial_qs_after dest: str_truthy_Some)
    with True show ?thesis by (auto simp: list_all_iff)
  next
    case False
    have fw: "(\<forall>c\<in>set log. map_of (qs (fst c)) ''before'' = None) \<and>
         (\<forall>c\<in>set (tl log). map_of (qs (fst c)) ''after'' \<noteq> None) \<and>
         (map_of (w_qs ?st) ''after'' \<noteq> None \<longrightarrow> (\<forall>c\<in>set log. map_of (qs (fst c)) ''after'' \<noteq> None))"
      using False by (intro walk_forward [OF run]) (simp_all add: initial_qs_before)
    have first: "\<not> str_truthy (after lo) \<Longrightarrow> map_of (qs (fst (hd log))) ''after'' = None"
      using walk_first [OF run] by (simp add: initial_qs_after)
    from fw first False show ?thesis
      by (cases "after lo") (auto simp: list_all_iff initial_qs_after)
  qed
qed

theorem walk_direction_fixed_witness:
  "requestList (logged scripted) ''/emails'' \<lparr>after = None, before = None\<rparr> ''key'' 0 True None
       ([list_page [item_with_id ''x1''] True, list_page [item_with_id ''x2''] True,
         list_page [item_with_id ''x3''] False], []) =
     (Inr (list_page [item_with_id ''x1'', item_with_id ''x2'', item_with_id ''x3''] False), [],
      [(get_request ''/emails'' ''key'' [(''limit'', JNum 100)],
        Inr (list_page [item_with_id ''x1''] True)),
       (get_request ''/emails'' ''key'' [(''limit'', JNum 100), (''after'', JStr ''x1'')],
        Inr (list_page [item_with_id ''x2''] True)),
       (get_request ''/emails'' ''key'' [(''limit'', JNum 100), (''after'', JStr ''x2'')],
        Inr (list_page [item_with_id ''x3''] False))]) \<and>
   list_all (\<lambda>c. map_of (qs (fst c)) ''before'' = None)
      [(get_request ''/emails'' ''key'' [(''limit'', JNum 100)],
        Inr (list_page [item_with_id ''x1''] True)),
       (get_request ''/emails'' ''key'' [(''limit'', JNum 100), (''after'', JStr ''x1'')],
        Inr (list_page [item_with_id ''x2''] True)),
       (get_request ''/emails'' ''key'' [(''limit'', JNum 100), (''after'', JStr ''x2'')],
        Inr (list_page [item_with_id ''x3''] False))] \<and>
   list_all (\<lambda>c. map_of (qs (fst c)) ''after'' \<noteq> None)
      [(get_request ''/emails'' ''key'' [(''limit'', JNum 100), (''after'', JStr ''x1'')],
        Inr (list_page [item_with_id ''x2''] True)),
       (get_request ''/emails'' ''key'' [(''limit'', JNum 100), (''after'', JStr ''x2'')],
        Inr (list_page [item_with_id ''x3''] False))]"
proof -
  let ?lo = "\<lparr>after = None, before = None\<rparr>"
  let ?log = "[(get_request ''/emails'' ''key'' [(''limit'', JNum 100)],
        Inr (list_page [item_with_id ''x1''] True)),
       (get_request ''/emails'' ''key'' [(''limit'', JNum 100), (''after'', JStr ''x1'')],
        Inr (list_page [item_with_id ''x2''] True)),
       (get_request ''/emails'' ''key'' [(''limit'', JNum 100), (''after'', JStr ''x2'')],
        Inr (list_page [item_with_id ''x3''] False))]"
  have h2: "requestList (logged scripted) ''/emails'' ?lo ''key'' 0 True None
       ([list_page [item_with_id ''x1''] True, list_page [item_with_id ''x2''] True,
         list_page [item_with_id ''x3''] False], []) =
     (Inr (list_page [item_with_id ''x1'', item_with_id ''x2'', item_with_id ''x3''] False), [], ?log)"
    by code_simp
  from walk_direction_fixed [OF h2]
  have h3: "list_all (\<lambda>c. map_of (qs (fst c)) ''before'' = None) ?log \<and>
            list_all (\<lambda>c. map_of (qs (fst c)) ''after'' \<noteq> None) (tl ?log)"
    by simp
  from h2 h3 show ?thesis by simp
qed

text \<open>
  C5: against an upstream every response of which reports a truthy has_more and a non-empty
  data array whose last item has a truthy id, the full-aggregation walk of requestList
  (at most one cursor set) issues exactly 100 calls and the Dropdown Loader exactly 10. Against any upstream
  whatever, the walk issues at most 100 calls and the loader at most 10; both loops are
  total functions.
\<close>

theorem page_fetch_bounds:
  assumes "\<not> (str_truthy (after lo) \<and> str_truthy (before lo))"
    and good: "\<And>w rq. \<exists>resp. fst (http w rq) = Inr resp \<and> page_continues resp"
  shows "length (snd (snd (requestList (logged http) u lo k idx True limit (w, [])))) = 100 \<and>
         length (snd (snd (paginatedLoadOptions (logged http) endpoint k (w, [])))) = 10 \<and>
         length (snd (snd (requestList (logged any_http) u lo k idx True limit (v, [])))) \<le> 100 \<and>
         length (snd (snd (paginatedLoadOptions (logged any_http) endpoint k (v, [])))) \<le> 10"
proof -
  have a: "length log = 100 \<and> length log' = 10"
    if "requestList (logged http) u lo k idx True limit (w, []) = (r, (w', log))"
      and "paginatedLoadOptions (logged http) endpoint k (w, []) = (r', (w'', log'))"
    for r w' log r' w'' log'
  proof -
    from requestList_full [OF assms(1) that(1)] obtain r0 where
      "requestAllLoop (logged http) u k (initial_walk lo (initial_qs lo True limit)) (w, [])
         = (r0, (w', log))"
      by blast
    from walk_exact [OF this _ _ good] have "length log = 100"
      by (simp add: maxPages_def)
    moreover from paginatedLoadOptions_run [OF that(2)] obtain r1 where
      "loadLoop (logged http) endpoint k initial_loader (w, []) = (r1, (w'', log'))"
      by blast
    from load_exact [OF this _ _ good] have "length log' = 10"
      by (simp add: loaderMaxPages_def)
    ultimately show ?thesis by simp
  qed
  have b: "length log \<le> 100 \<and> length log' \<le> 10"
    if "requestList (logged any_http) u lo k idx True limit (v, []) = (r, (w', log))"
      and "paginatedLoadOptions (logged any_http) endpoint k (v, []) = (r', (w'', log'))"
    for r w' log r' w'' log'
  proof -
    from requestList_walk [OF assms(1) that(1)] have "length log \<le> 100"
      by (auto simp: walk_post_def maxPages_def)
    moreover from paginatedLoadOptions_run [OF that(2)] obtain r1 where
      "loadLoop (logged any_http) endpoint k initial_loader (v, []) = (r1, (w'', log'))"
      by blast
    from load_bound [OF this] have "length log' \<le> 10"
      by (simp add: loaderMaxPages_def)
    ultimately show ?thesis by simp
  qed
  from a [of "fst (requestList (logged http) u lo k idx True limit (w, []))"
      "fst (snd (requestList (logged http) u lo k idx True limit (w, [])))"
      "snd (snd (requestList (logged http) u lo k idx True limit (w, [])))"
      "fst (paginatedLoadOptions (logged http) endpoint k (w, []))"
      "fst (snd (paginatedLoadOptions (logged http) endpoint k (w, [])))"
      "snd (snd (paginatedLoadOptions (logged http) endpoint k (w, [])))"]
    b [of "fst (requestList (logged any_http) u lo k idx True limit (v, []))"
      "fst (snd (requestList (logged any_http) u lo k idx True limit (v, [])))"
      "snd (snd (requestList (logged any_http) u lo k idx True limit (v, [])))"
      "fst (paginatedLoadOptions (logged any_http) endpoint k (v, []))"
      "fst (snd (paginatedLoadOptions (logged any_http) endpoint k (v, [])))"
      "snd (snd (paginatedLoadOptions (logged any_http) endpoint k (v, [])))"]
  show ?thesis by simp
qed

theorem page_fetch_bounds_witness:
  "\<not> (str_truthy (after \<lparr>after = None, before = None\<rparr>) \<and>
      str_truthy (before \<lparr>after = None, before = None\<rparr>)) \<and>
   (\<forall>(w::unit) (rq::request). \<exists>resp.
      fst ((\<lambda>w rq. (Inr (list_page [item_with_id ''x1''] True) :: error + jvalue, w)) w rq) =
        Inr resp \<and>
      page_continues resp) \<and>
   length (snd (snd (requestList (logged (\<lambda>(w::unit) rq. (Inr (list_page [item_with_id ''x1''] True), w)))
      ''/emails'' \<lparr>after = None, before = None\<rparr> ''key'' 0 True None ((), [])))) = 100 \<and>
   length (snd (snd (paginatedLoadOptions
      (logged (\<lambda>(w::unit) rq. (Inr (list_page [item_with_id ''x1''] True), w)))
      ''/templates'' ''key'' ((), [])))) = 10"
proof -
  let ?lo = "\<lparr>after = None, before = None\<rparr>"
  let ?http = "\<lambda>(w::unit) (rq::request). (Inr (list_page [item_with_id ''x1''] True) :: error + jvalue, w)"
  have h1: "\<not> (str_truthy (after ?lo) \<and> str_truthy (before ?lo))"
    by simp
  have h2: "\<exists>resp. fst (?http w rq) = Inr resp \<and> page_continues resp" for w rq
    by (simp add: page_continues_def list_page_def item_with_id_def)
  from page_fetch_bounds [of ?lo ?http "''/emails''" "''key''" 0 None "()" "''/templates''" ?http "()",
      OF h1 h2]
  have h3: "length (snd (snd (requestList (logged ?http) ''/emails'' ?lo ''key'' 0 True None ((), [])))) = 100 \<and>
   length (snd (snd (paginatedLoadOptions (logged ?http) ''/templates'' ''key'' ((), [])))) = 10"
    by blast
  from h2 have h2': "\<forall>(w::unit) rq. \<exists>resp. fst (?http w rq) = Inr resp \<and> page_continues resp"
    by blast
  show ?thesis
    by (rule conjI [OF h1 conjI [OF h2' h3]])
qed

text \<open>
  C6 (as amended): in single-page mode exactly one call is issued and its limit parameter is
  the caller's limit whenever one is given, whatever its sign, and 50 only when none is
  given; in full-aggregation mode at least one call is issued and every call carries
  limit 100, whatever the caller's limit.
\<close>

theorem requestList_limit_sent:
  assumes "\<not> (str_truthy (after lo) \<and> str_truthy (before lo))"
    and "requestList (logged http) u lo k idx returnAll limit (w, []) = (r, (w', log))"
  shows "if returnAll
         then log \<noteq> [] \<and> list_all (\<lambda>c. map_of (qs (fst c)) ''limit'' = Some (JNum 100)) log
         else map (\<lambda>c. map_of (qs (fst c)) ''limit'') log =
                [Some (JNum (case limit of None \<Rightarrow> 50 | Some l \<Rightarrow> l))]"
proof (cases returnAll)
  case True
  from assms(2) True have "requestList (logged http) u lo k idx True limit (w, []) = (r, (w', log))"
    by simp
  from requestList_full [OF assms(1) this] obtain r0 where
    run: "requestAllLoop (logged http) u k (initial_walk lo (initial_qs lo True limit)) (w, [])
            = (r0, (w', log))"
    by blast
  have "\<forall>c\<in>set log. map_of (qs (fst c)) ''limit'' = Some (JNum 100)"
    by (rule walk_limit [OF run]) (simp add: initial_qs_limit)
  moreover have "log \<noteq> []"
    using walk_log [OF run] by (simp add: walk_post_def)
  ultimately show ?thesis using True by (simp add: list_all_iff)
next
  case False
  with assms(2) show ?thesis
    by (auto simp: requestList_single [OF assms(1)] initial_qs_limit split: prod.splits sum.splits)
qed

theorem requestList_limit_sent_witness:
  "\<not> (str_truthy (after \<lparr>after = None, before = Some ''b1''\<rparr>) \<and>
      str_truthy (before \<lparr>after = None, before = Some ''b1''\<rparr>)) \<and>
   requestList (logged scripted) ''/emails'' \<lparr>after = None, before = Some ''b1''\<rparr> ''key'' 0 True (Some 7)
       ([list_page [item_with_id ''x1''] True, list_page [item_with_id ''x2''] False], []) =
     (Inr (list_page [item_with_id ''x1'', item_with_id ''x2''] False), [],
      [(get_request ''/emails'' ''key'' [(''limit'', JNum 100), (''before'', JStr ''b1'')],
        Inr (list_page [item_with_id ''x1''] True)),
       (get_request ''/emails'' ''key'' [(''limit'', JNum 100), (''before'', JStr ''x1'')],
        Inr (list_page [item_with_id ''x2''] False))]) \<and>
   list_all (\<lambda>c. map_of (qs (fst c)) ''limit'' = Some (JNum 100))
      [(get_request ''/emails'' ''key'' [(''limit'', JNum 100), (''before'', JStr ''b1'')],
        Inr (list_page [item_with_id ''x1''] True)),
       (get_request ''/emails'' ''key'' [(''limit'', JNum 100), (''before'', JStr ''x1'')],
        Inr (list_page [item_with_id ''x2''] False))]"
proof -
  let ?lo = "\<lparr>after = None, before = Some ''b1''\<rparr>"
  let ?log = "[(get_request ''/emails'' ''key'' [(''limit'', JNum 100), (''before'', JStr ''b1'')],
        Inr (list_page [item_with_id ''x1''] True)),
       (get_request ''/emails'' ''key'' [(''limit'', JNum 100), (''before'', JStr ''x1'')],
        Inr (list_page [item_with_id ''x2''] False))]"
  have h1: "\<not> (str_truthy (after ?lo) \<and> str_truthy (before ?lo))"
    by simp
  have h2: "requestList (logged scripted) ''/emails'' ?lo ''key'' 0 True (Some 7)
       ([list_page [item_with_id ''x1''] True, list_page [item_with_id ''x2''] False], []) =
     (Inr (list_page [item_with_id ''x1'', item_with_id ''x2''] False), [], ?log)"
    by code_simp
  from requestList_limit_sent [OF h1 h2]
  have h3: "list_all (\<lambda>c. map_of (qs (fst c)) ''limit'' = Some (JNum 100)) ?log"
    by simp
  show ?thesis
    by (rule conjI [OF h1 conjI [OF h2 h3]])
qed

theorem requestList_limit_zero_counterexample:
  "map (\<lambda>c. map_of (qs (fst c)) ''limit'')
     (snd (snd (requestList (logged scripted) ''/emails'' \<lparr>after = None, before = None\<rparr> ''key'' 0
                  False (Some 0) ([list_page [] False], [])))) = [Some (JNum 0)] \<and>
   map (\<lambda>c. map_of (qs (fst c)) ''limit'')
     (snd (snd (requestList (logged scripted) ''/emails'' \<lparr>after = None, before = None\<rparr> ''key'' 0
                  False (Some 0) ([list_page [] False], [])))) \<noteq> [Some (JNum 50)]"
  by code_simp

text \<open>
  C7: in single-page mode with a positive limit, when the data array of the response holds
  more than limit items, requestList issues the one call and returns that response with data
  cut to its first limit items, in their order; has_more is what the upstream sent.
\<close>

theorem single_page_truncated_to_limit:
  assumes "\<not> (str_truthy (after lo) \<and> str_truthy (before lo))"
    and "http w (get_request u k (initial_qs lo False (Some l))) = (Inr resp, w')"
    and "opt_prop (Some resp) ''data'' = Some (JArr items)"
    and "0 < l" and "l < int (length items)"
  shows "requestList (logged http) u lo k idx False (Some l) (w, []) =
           (Inr (set_prop resp ''data'' (JArr (take (nat l) items))),
            (w', [(get_request u k (initial_qs lo False (Some l)), Inr resp)])) \<and>
         opt_prop (Some (set_prop resp ''data'' (JArr (take (nat l) items)))) ''data'' =
           Some (JArr (take (nat l) items)) \<and>
         int (length (take (nat l) items)) = l \<and>
         opt_prop (Some (set_prop resp ''data'' (JArr (take (nat l) items)))) ''has_more'' =
           opt_prop (Some resp) ''has_more''"
proof -
  from assms(3) obtain fs where fs: "resp = JObj fs"
    by (blast dest: opt_prop_Some_obj)
  have "single_page resp (Some l) = Inr (set_prop resp ''data'' (JArr (take (nat l) items)))"
    using assms(3-5) fs by (simp add: single_page_def get_prop_Some)
  then have "requestList (logged http) u lo k idx False (Some l) (w, []) =
           (Inr (set_prop resp ''data'' (JArr (take (nat l) items))),
            (w', [(get_request u k (initial_qs lo False (Some l)), Inr resp)]))"
    using assms(2) by (simp add: requestList_single [OF assms(1)])
  moreover have "int (length (take (nat l) items)) = l"
    using assms(4,5) by simp
  ultimately show ?thesis
    using fs by (simp add: update_conv')
qed

theorem single_page_truncated_to_limit_witness:
  "\<not> (str_truthy (after \<lparr>after = None, before = None\<rparr>) \<and>
      str_truthy (before \<lparr>after = None, before = None\<rparr>)) \<and>
   scripted
     [list_page (map item_with_id [''i1'', ''i2'', ''i3'', ''i4'', ''i5'', ''i6'', ''i7'', ''i8'']) True]
     (get_request ''/emails'' ''key'' (initial_qs \<lparr>after = None, before = None\<rparr> False (Some 5))) =
     (Inr (list_page (map item_with_id [''i1'', ''i2'', ''i3'', ''i4'', ''i5'', ''i6'', ''i7'', ''i8'']) True), []) \<and>
   (0::int) < 5 \<and> (5::int) < int (length (map item_with_id [''i1'', ''i2'', ''i3'', ''i4'', ''i5'', ''i6'', ''i7'', ''i8''])) \<and>
   requestList (logged scripted) ''/emails'' \<lparr>after = None, before = None\<rparr> ''key'' 0 False (Some 5)
     ([list_page (map item_with_id [''i1'', ''i2'', ''i3'', ''i4'', ''i5'', ''i6'', ''i7'', ''i8'']) True], []) =
     (Inr (list_page (map item_with_id [''i1'', ''i2'', ''i3'', ''i4'', ''i5'']) True),
      [],
      [(get_request ''/emails'' ''key'' [(''limit'', JNum 5)],
        Inr (list_page (map item_with_id [''i1'', ''i2'', ''i3'', ''i4'', ''i5'', ''i6'', ''i7'', ''i8'']) True))])"
proof -
  let ?lo = "\<lparr>after = None, before = None\<rparr>"
  let ?items = "map item_with_id [''i1'', ''i2'', ''i3'', ''i4'', ''i5'', ''i6'', ''i7'', ''i8'']"
  have h1: "\<not> (str_truthy (after ?lo) \<and> str_truthy (before ?lo))"
    by simp
  have h2: "scripted [list_page ?items True]
     (get_request ''/emails'' ''key'' (initial_qs ?lo False (Some 5))) =
     (Inr (list_page ?items True), [])"
    by simp
  have h3: "opt_prop (Some (list_page ?items True)) ''data'' = Some (JArr ?items)"
    by (simp add: list_page_def)
  have h4: "(0::int) < 5" by simp
  have h5: "(5::int) < int (length ?items)" by simp
  from single_page_truncated_to_limit
    [where http = scripted and w = "[list_page ?items True]" and idx = 0, OF h1 h2 h3 h4 h5]
  have "requestList (logged scripted) ''/emails'' ?lo ''key'' 0 False (Some 5) ([list_page ?items True], []) =
     (Inr (list_page (map item_with_id [''i1'', ''i2'', ''i3'', ''i4'', ''i5'']) True),
      [],
      [(get_request ''/emails'' ''key'' [(''limit'', JNum 5)], Inr (list_page ?items True))])"
    by (simp add: list_page_def initial_qs_def)
  with h1 h2 h4 h5 show ?thesis by blast
qed

text \<open>
  C8 (as amended): in full-aggregation mode, when the last response fetched is not null and
  its data field is not an array, requestList returns a fresh list result: object "list",
  has_more false, and as data the items accumulated from the pages fetched before it, which
  is the empty sequence when that response is the first one fetched.
\<close>

theorem full_result_fallback:
  assumes "requestList (logged http) u lo k idx True limit (w, []) = (r, (w', log))"
    and "log \<noteq> []"
    and "snd (last log) = Inr resp"
    and "resp \<noteq> JNull"
    and "\<not> isArray (opt_prop (Some resp) ''data'')"
  shows "r = Inr (JObj [(''object'', JStr ''list''),
                        (''data'', JArr (concat (map page_items (butlast log)))),
                        (''has_more'', JBool False)]) \<and>
         (length log = 1 \<longrightarrow>
            r = Inr (JObj [(''object'', JStr ''list''), (''data'', JArr []),
                           (''has_more'', JBool False)]))"
proof -
  from requestList_fetched [OF assms(1,2)] obtain r0 where
    post: "walk_post r0 log" and r: "r = (case r0 of Inl e \<Rightarrow> Inl e | Inr st \<Rightarrow> Inr (finish st))"
    by blast
  from walk_result [OF post assms(3,4)] obtain st' where
    st': "r0 = Inr st'" "allItems st' = concat (map page_items log)" "lastResponse st' = Some resp"
    by blast
  note ne = assms(2)
  have "page_items (last log) = []"
    using assms(3,5) by (cases "last log") (simp add: not_isArray_responseData)
  from concat_page_items_butlast [OF ne this] st'
  have "allItems st' = concat (map page_items (butlast log))" by simp
  with r st' finish_fallback [OF st'(3) assms(5)]
  have main: "r = Inr (JObj [(''object'', JStr ''list''),
                        (''data'', JArr (concat (map page_items (butlast log)))),
                        (''has_more'', JBool False)])"
    by simp
  have "length log = 1 \<Longrightarrow> butlast log = []"
    by (cases log) simp_all
  with main show ?thesis by simp
qed

theorem full_result_fallback_witness:
  "requestList (logged scripted) ''/emails'' \<lparr>after = None, before = None\<rparr> ''key'' 0 True None
       ([list_page [item_with_id ''x1'', item_with_id ''x2''] True, JStr ''gateway''], []) =
     (Inr (JObj [(''object'', JStr ''list''),
                 (''data'', JArr [item_with_id ''x1'', item_with_id ''x2'']),
                 (''has_more'', JBool False)]), [],
      [(get_request ''/emails'' ''key'' [(''limit'', JNum 100)],
        Inr (list_page [item_with_id ''x1'', item_with_id ''x2''] True)),
       (get_request ''/emails'' ''key'' [(''limit'', JNum 100), (''after'', JStr ''x2'')],
        Inr (JStr ''gateway''))]) \<and>
   JStr ''gateway'' \<noteq> JNull \<and> \<not> isArray (opt_prop (Some (JStr ''gateway'')) ''data'') \<and>
   concat (map page_items
     (butlast
       [(get_request ''/emails'' ''key'' [(''limit'', JNum 100)],
         Inr (list_page [item_with_id ''x1'', item_with_id ''x2''] True)),
        (get_request ''/emails'' ''key'' [(''limit'', JNum 100), (''after'', JStr ''x2'')],
         Inr (JStr ''gateway''))])) = [item_with_id ''x1'', item_with_id ''x2'']"
proof -
  let ?lo = "\<lparr>after = None, before = None\<rparr>"
  let ?res = "JObj [(''object'', JStr ''list''),
                 (''data'', JArr [item_with_id ''x1'', item_with_id ''x2'']),
                 (''has_more'', JBool False)]"
  let ?log = "[(get_request ''/emails'' ''key'' [(''limit'', JNum 100)],
        Inr (list_page [item_with_id ''x1'', item_with_id ''x2''] True)),
       (get_request ''/emails'' ''key'' [(''limit'', JNum 100), (''after'', JStr ''x2'')],
        Inr (JStr ''gateway''))]"
  have h1: "?log \<noteq> []"
    by simp
  have h2: "requestList (logged scripted) ''/emails'' ?lo ''key'' 0 True None
       ([list_page [item_with_id ''x1'', item_with_id ''x2''] True, JStr ''gateway''], []) =
       (Inr ?res, [], ?log)"
    by code_simp
  have h3: "snd (last ?log) = Inr (JStr ''gateway'')" by simp
  have h4: "JStr ''gateway'' \<noteq> JNull" by simp
  have h5: "\<not> isArray (opt_prop (Some (JStr ''gateway'')) ''data'')" by simp
  from full_result_fallback [OF h2 h1 h3 h4 h5]
  have h6: "concat (map page_items (butlast ?log)) = [item_with_id ''x1'', item_with_id ''x2'']"
    by simp
  from h2 h4 h5 h6 show ?thesis by blast
qed

theorem full_result_fallback_counterexample:
  "requestList (logged scripted) ''/emails'' \<lparr>after = None, before = None\<rparr> ''key'' 0 True None
       ([list_page [item_with_id ''x1''] True, JObj [(''has_more'', JBool True)]], []) =
     (Inr (JObj [(''object'', JStr ''list''), (''data'', JArr [item_with_id ''x1'']),
                 (''has_more'', JBool False)]), [],
      [(get_request ''/emails'' ''key'' [(''limit'', JNum 100)],
        Inr (list_page [item_with_id ''x1''] True)),
       (get_request ''/emails'' ''key'' [(''limit'', JNum 100), (''after'', JStr ''x1'')],
        Inr (JObj [(''has_more'', JBool True)]))]) \<and>
   \<not> isArray (opt_prop (Some (JObj [(''has_more'', JBool True)])) ''data'') \<and>
   [item_with_id ''x1''] \<noteq> []"
  by code_simp

text \<open>
  C9: the Dropdown Loader returns, in the order the items were received across the pages
  fetched, one pair for every item that has an id (a truthy id), and none for an item
  lacking one. The pair's value is the id; its name is "name (id)" when the item has a
  (truthy) name and the id otherwise.
\<close>

theorem loader_projects_items:
  assumes "paginatedLoadOptions (logged http) endpoint k (w, []) = (Inr out, (w', log))"
  shows "out = map spec_pair (filter spec_has_id (concat (map loader_items log))) \<and>
         (\<forall>item i n.
            opt_prop (Some item) ''id'' = Some (JStr i) \<and> i \<noteq> [] \<and>
            opt_prop (Some item) ''name'' = Some (JStr n) \<and> n \<noteq> [] \<longrightarrow>
            spec_has_id item \<and>
            spec_pair item = \<lparr>opt_name = JStr (n @ '' ('' @ i @ '')''), opt_value = JStr i\<rparr>) \<and>
         (\<forall>item i.
            opt_prop (Some item) ''id'' = Some (JStr i) \<and> i \<noteq> [] \<and>
            \<not> truthy (opt_prop (Some item) ''name'') \<longrightarrow>
            spec_has_id item \<and> spec_pair item = \<lparr>opt_name = JStr i, opt_value = JStr i\<rparr>) \<and>
         (\<forall>item. opt_prop (Some item) ''id'' = None \<longrightarrow> \<not> spec_has_id item)"
proof -
  from paginatedLoadOptions_run [OF assms] obtain r0 where
    run: "loadLoop (logged http) endpoint k initial_loader (w, []) = (r0, (w', log))"
    and r: "Inr out = (case r0 of Inl e \<Rightarrow> Inl e | Inr st \<Rightarrow> Inr (returnData st))"
    by blast
  from r obtain st' where st': "r0 = Inr st'" "out = returnData st'"
    by (cases r0) simp_all
  from load_returnData [OF run] st'
  have "out = map spec_pair (filter spec_has_id (concat (map loader_items log)))"
    by (simp add: concat_project)
  then show ?thesis
    by (auto simp: spec_has_id_def spec_pair_def split: option.splits)
qed

theorem loader_projects_items_witness:
  "paginatedLoadOptions (logged scripted) ''/templates'' ''key''
     ([list_page [JObj [(''id'', JStr ''tpl_1''), (''name'', JStr ''Welcome'')]] True,
       list_page [JObj [(''name'', JStr ''Draft'')], JObj [(''id'', JStr ''tpl_2'')]] False], []) =
     (Inr [\<lparr>opt_name = JStr ''Welcome (tpl_1)'', opt_value = JStr ''tpl_1''\<rparr>,
           \<lparr>opt_name = JStr ''tpl_2'', opt_value = JStr ''tpl_2''\<rparr>],
      [],
      [(get_request ''https://api.resend.com/templates'' ''key'' [(''limit'', JNum 100)],
        Inr (list_page [JObj [(''id'', JStr ''tpl_1''), (''name'', JStr ''Welcome'')]] True)),
       (get_request ''https://api.resend.com/templates'' ''key''
          [(''limit'', JNum 100), (''after'', JStr ''tpl_1'')],
        Inr (list_page [JObj [(''name'', JStr ''Draft'')], JObj [(''id'', JStr ''tpl_2'')]] False))]) \<and>
   [\<lparr>opt_name = JStr ''Welcome (tpl_1)'', opt_value = JStr ''tpl_1''\<rparr>,
    \<lparr>opt_name = JStr ''tpl_2'', opt_value = JStr ''tpl_2''\<rparr>] =
   map spec_pair (filter spec_has_id
     [JObj [(''id'', JStr ''tpl_1''), (''name'', JStr ''Welcome'')],
      JObj [(''name'', JStr ''Draft'')], JObj [(''id'', JStr ''tpl_2'')]])"
proof -
  let ?log = "[(get_request ''https://api.resend.com/templates'' ''key'' [(''limit'', JNum 100)],
        Inr (list_page [JObj [(''id'', JStr ''tpl_1''), (''name'', JStr ''Welcome'')]] True)),
       (get_request ''https://api.resend.com/templates'' ''key''
          [(''limit'', JNum 100), (''after'', JStr ''tpl_1'')],
        Inr (list_page [JObj [(''name'', JStr ''Draft'')], JObj [(''id'', JStr ''tpl_2'')]] False))]"
  have h1: "paginatedLoadOptions (logged scripted) ''/templates'' ''key''
     ([list_page [JObj [(''id'', JStr ''tpl_1''), (''name'', JStr ''Welcome'')]] True,
       list_page [JObj [(''name'', JStr ''Draft'')], JObj [(''id'', JStr ''tpl_2'')]] False], []) =
     (Inr [\<lparr>opt_name = JStr ''Welcome (tpl_1)'', opt_value = JStr ''tpl_1''\<rparr>,
           \<lparr>opt_name = JStr ''tpl_2'', opt_value = JStr ''tpl_2''\<rparr>], [], ?log)"
    by code_simp
  have h2: "concat (map loader_items ?log) =
     [JObj [(''id'', JStr ''tpl_1''), (''name'', JStr ''Welcome'')],
      JObj [(''name'', JStr ''Draft'')], JObj [(''id'', JStr ''tpl_2'')]]"
    by (simp add: list_page_def)
  from loader_projects_items [OF h1, THEN conjunct1]
  have h3: "[\<lparr>opt_name = JStr ''Welcome (tpl_1)'', opt_value = JStr ''tpl_1''\<rparr>,
    \<lparr>opt_name = JStr ''tpl_2'', opt_value = JStr ''tpl_2''\<rparr>] =
   map spec_pair (filter spec_has_id
     [JObj [(''id'', JStr ''tpl_1''), (''name'', JStr ''Welcome'')],
      JObj [(''name'', JStr ''Draft'')], JObj [(''id'', JStr ''tpl_2'')]])"
    unfolding h2 .
  from h1 h3 show ?thesis by (rule conjI)
qed

text \<open>
  C10: in full-aggregation mode, when the last response fetched carries an array in its data
  field, requestList returns that response with data replaced by all the items accumulated
  over the walk and has_more set to false; every other field reads as in that response.
\<close>

theorem full_result_keeps_other_fields:
  assumes "requestList (logged http) u lo k idx True limit (w, []) = (r, (w', log))"
    and "log \<noteq> []"
    and "snd (last log) = Inr resp"
    and "isArray (opt_prop (Some resp) ''data'')"
  shows "\<exists>res. r = Inr res \<and>
           res = set_prop (set_prop resp ''data'' (JArr (concat (map page_items log))))
                   ''has_more'' (JBool False) \<and>
           opt_prop (Some res) ''data'' = Some (JArr (concat (map page_items log))) \<and>
           opt_prop (Some res) ''has_more'' = Some (JBool False) \<and>
           (\<forall>key. key \<noteq> ''data'' \<and> key \<noteq> ''has_more'' \<longrightarrow>
                  opt_prop (Some res) key = opt_prop (Some resp) key)"
proof -
  from requestList_fetched [OF assms(1,2)] obtain r0 where
    post: "walk_post r0 log" and r: "r = (case r0 of Inl e \<Rightarrow> Inl e | Inr st \<Rightarrow> Inr (finish st))"
    by blast
  from assms(4) obtain fs where fs: "resp = JObj fs" by (blast dest: isArray_obj)
  then have "resp \<noteq> JNull" by simp
  from walk_result [OF post assms(3) this] obtain st' where
    st': "r0 = Inr st'" "allItems st' = concat (map page_items log)" "lastResponse st' = Some resp"
    by blast
  have "r = Inr (set_prop (set_prop resp ''data'' (JArr (concat (map page_items log))))
                   ''has_more'' (JBool False))"
    using r st' finish_array [OF st'(3) assms(4)] by simp
  then show ?thesis
    using fs by (simp add: update_conv')
qed

theorem full_result_keeps_other_fields_witness:
  "requestList (logged scripted) ''/contacts'' \<lparr>after = Some ''a0'', before = None\<rparr> ''key'' 0 True None
       ([list_page [item_with_id ''x1''] True,
         JObj [(''object'', JStr ''list''), (''total'', JNum 2), (''data'', JArr [item_with_id ''x2''])]],
        []) =
     (Inr (JObj [(''object'', JStr ''list''), (''total'', JNum 2),
                 (''data'', JArr [item_with_id ''x1'', item_with_id ''x2'']),
                 (''has_more'', JBool False)]), [],
      [(get_request ''/contacts'' ''key'' [(''limit'', JNum 100), (''after'', JStr ''a0'')],
        Inr (list_page [item_with_id ''x1''] True)),
       (get_request ''/contacts'' ''key'' [(''limit'', JNum 100), (''after'', JStr ''x1'')],
        Inr (JObj [(''object'', JStr ''list''), (''total'', JNum 2),
                   (''data'', JArr [item_with_id ''x2''])]))]) \<and>
   opt_prop (Some (JObj [(''object'', JStr ''list''), (''total'', JNum 2),
                 (''data'', JArr [item_with_id ''x1'', item_with_id ''x2'']),
                 (''has_more'', JBool False)])) ''total'' =
   opt_prop (Some (JObj [(''object'', JStr ''list''), (''total'', JNum 2),
                   (''data'', JArr [item_with_id ''x2''])])) ''total''"
proof -
  let ?lo = "\<lparr>after = Some ''a0'', before = None\<rparr>"
  let ?last = "JObj [(''object'', JStr ''list''), (''total'', JNum 2),
                   (''data'', JArr [item_with_id ''x2''])]"
  let ?res = "JObj [(''object'', JStr ''list''), (''total'', JNum 2),
                 (''data'', JArr [item_with_id ''x1'', item_with_id ''x2'']),
                 (''has_more'', JBool False)]"
  let ?log = "[(get_request ''/contacts'' ''key'' [(''limit'', JNum 100), (''after'', JStr ''a0'')],
        Inr (list_page [item_with_id ''x1''] True)),
       (get_request ''/contacts'' ''key'' [(''limit'', JNum 100), (''after'', JStr ''x1'')],
        Inr ?last)]"
  have h1: "?log \<noteq> []"
    by simp
  have h2: "requestList (logged scripted) ''/contacts'' ?lo ''key'' 0 True None
       ([list_page [item_with_id ''x1''] True, ?last], []) = (Inr ?res, [], ?log)"
    by code_simp
  have h3: "snd (last ?log) = Inr ?last" by simp
  have h4: "isArray (opt_prop (Some ?last) ''data'')" by simp
  from full_result_keeps_other_fields [OF h2 h1 h3 h4]
  have h5: "opt_prop (Some ?res) ''total'' = opt_prop (Some ?last) ''total''"
    by simp
  from h2 h5 show ?thesis by blast
qed

end
